theory Spec2Isabelle
  imports Main "HOL-Library.Multiset"
begin

section \<open>JavaScript values used by commandsHandler.ts\<close>

text \<open>
  Strings are character lists. \<open>String.prototype.toLowerCase\<close> and
  \<open>String.prototype.trim\<close> are given on the ASCII range.
\<close>

definition toLowerChar :: "char \<Rightarrow> char" where
  "toLowerChar c =
     (case map_of (zip ''ABCDEFGHIJKLMNOPQRSTUVWXYZ'' ''abcdefghijklmnopqrstuvwxyz'') c of
        Some l \<Rightarrow> l
      | None \<Rightarrow> c)"

definition toLowerCase :: "string \<Rightarrow> string" where
  "toLowerCase s = map toLowerChar s"

definition isWhiteSpace :: "char \<Rightarrow> bool" where
  "isWhiteSpace c = (c \<in> set [CHR '' '', CHR 0x09, CHR 0x0A, CHR 0x0B, CHR 0x0C, CHR 0x0D])"

definition trim :: "string \<Rightarrow> string" where
  "trim s = rev (dropWhile isWhiteSpace (rev (dropWhile isWhiteSpace s)))"

text \<open>
  A template literal prints an undefined value as the word \<open>undefined\<close>:
  \<open>`${entry.getGroupLabel()}`\<close> of an entry without group label.
\<close>

definition templateStr :: "string option \<Rightarrow> string" where
  "templateStr x = (case x of None \<Rightarrow> ''undefined'' | Some s \<Rightarrow> s)"

text \<open>
  \<open>Array.prototype.sort(compareFn)\<close> is stable; for a consistent comparator it returns
  the sorted permutation. It is run here as an insertion sort that takes the elements
  from left to right and compares each one with the elements already placed, moving
  it in front of the first placed element it is strictly smaller than.
\<close>

fun insertSorted :: "('a \<Rightarrow> 'a \<Rightarrow> int) \<Rightarrow> 'a \<Rightarrow> 'a list \<Rightarrow> 'a list" where
  "insertSorted cmp x [] = [x]"
| "insertSorted cmp x (y # ys) =
     (if cmp x y < 0 then x # y # ys else y # insertSorted cmp x ys)"

definition arraySort :: "('a \<Rightarrow> 'a \<Rightarrow> int) \<Rightarrow> 'a list \<Rightarrow> 'a list" where
  "arraySort cmp xs = fold (insertSorted cmp) xs []"

section \<open>Actions offered to the command palette\<close>

text \<open>
  An editor action (IEditorAction) has an id, a label and an alias. A menu item action
  (MenuItemAction) has an id and its command item: the item's id, a title and an optional
  category, each a plain string or a localized string with its value and its original.
  \<open>menu.getActions()\<close> returns groups of menu item actions and submenu item actions.
\<close>

record IEditorAction =
  editorActionId :: string
  editorActionLabel :: string
  editorActionAlias :: string

datatype ILocalizedString = Plain string | Localized string string

record MenuItemAction =
  menuActionId :: string
  itemId :: string
  itemTitle :: ILocalizedString
  itemCategory :: "ILocalizedString option"

datatype MenuAction = MenuItem MenuItemAction | SubmenuItem

section \<open>The command history: class CommandsHistory\<close>

text \<open>interface ISerializedCommandHistory: \<open>usesLRU\<close> absent reads as false.\<close>

record ISerializedCommandHistory =
  usesLRU :: bool
  entries :: "(string \<times> int) list"

text \<open>
  Modelled from the spec: class \<open>LRUCache\<close> of vs/base/common/map is not among the
  sources. The spec's RecencyStore is an ordered map keyed by commandId whose
  insertion/access order is the recency order, with a capacity (an integer \<open>\<ge> 0\<close>):
  a \<open>set\<close> puts the entry at the most recent position (moving it when the key is known)
  and evicts least recent entries while the size exceeds the capacity; a \<open>peek\<close> looks a
  key up and changes nothing; changing the capacity truncates the least recent entries.
  The list \<open>items\<close> holds the least recently used entry first; \<open>trimmed\<close> is what
  \<open>checkTrim\<close> cuts off.
\<close>

record LRUCache =
  limit :: nat
  items :: "(string \<times> int) list"

definition newLRUCache :: "nat \<Rightarrow> LRUCache" where
  "newLRUCache n = \<lparr>limit = n, items = []\<rparr>"

definition touch :: "string \<Rightarrow> int \<Rightarrow> (string \<times> int) list \<Rightarrow> (string \<times> int) list" where
  "touch k v es = filter (\<lambda>e. fst e \<noteq> k) es @ [(k, v)]"

definition trimmed :: "LRUCache \<Rightarrow> (string \<times> int) list" where
  "trimmed c = take (length (items c) - limit c) (items c)"

definition checkTrim :: "LRUCache \<Rightarrow> LRUCache" where
  "checkTrim c = c\<lparr>items := drop (length (items c) - limit c) (items c)\<rparr>"

definition cacheSet :: "string \<Rightarrow> int \<Rightarrow> LRUCache \<Rightarrow> LRUCache" where
  "cacheSet k v c = checkTrim (c\<lparr>items := touch k v (items c)\<rparr>)"

definition cachePeek :: "LRUCache \<Rightarrow> string \<Rightarrow> int option" where
  "cachePeek c k = map_of (items c) k"

definition setLimit :: "nat \<Rightarrow> LRUCache \<Rightarrow> LRUCache" where
  "setLimit n c = checkTrim (c\<lparr>limit := n\<rparr>)"

text \<open>
  The state the file keeps: the statics of \<open>CommandsHistory\<close> (\<open>cache\<close>, \<open>counter\<close>),
  the module variable \<open>lastCommandPaletteInput\<close>, the two storage keys
  (\<open>commandPalette.mru.cache\<close> after \<open>JSON.parse\<close>, \<open>None\<close> when missing or not
  parseable, and \<open>commandPalette.mru.counter\<close>), and the fields of the one
  \<open>CommandsHandler\<close> with its \<open>CommandsHistory\<close>.
\<close>

record state =
  cache :: "LRUCache option"
  counter :: int
  lastCommandPaletteInput :: "string option"
  storedCache :: "ISerializedCommandHistory option"
  storedCounter :: "int option"
  configuredCommandsHistoryLength :: nat
  waitedForExtensionsRegistered :: bool
  disposeOnClose :: "MenuItemAction list list"

definition DEFAULT_COMMANDS_HISTORY_LENGTH :: nat where
  "DEFAULT_COMMANDS_HISTORY_LENGTH = 50"

text \<open>The configuration value \<open>workbench.commandPalette.history\<close>, when it is a number.\<close>

definition getConfiguredCommandHistoryLength :: "nat option \<Rightarrow> nat" where
  "getConfiguredCommandHistoryLength config =
     (case config of
        Some configuredCommandHistoryLength \<Rightarrow> configuredCommandHistoryLength
      | None \<Rightarrow> DEFAULT_COMMANDS_HISTORY_LENGTH)"

definition saveState :: "state \<Rightarrow> state" where
  "saveState st =
     (case cache st of
        None \<Rightarrow> st
      | Some c \<Rightarrow>
          st\<lparr>storedCache := Some \<lparr>usesLRU = True, entries = items c\<rparr>,
             storedCounter := Some (counter st)\<rparr>)"

definition updateConfiguration :: "nat option \<Rightarrow> state \<Rightarrow> state" where
  "updateConfiguration config st =
     (let n = getConfiguredCommandHistoryLength config;
          st1 = st\<lparr>configuredCommandsHistoryLength := n\<rparr>
      in case cache st1 of
           None \<Rightarrow> st1
         | Some c \<Rightarrow>
             if limit c \<noteq> n then saveState (st1\<lparr>cache := Some (setLimit n c)\<rparr>) else st1)"

definition sortByCounter :: "(string \<times> int) list \<Rightarrow> (string \<times> int) list" where
  "sortByCounter es = arraySort (\<lambda>a b. snd a - snd b) es"

definition load :: "state \<Rightarrow> state" where
  "load st =
     (let cache0 = newLRUCache (configuredCommandsHistoryLength st);
          cache1 =
            (case storedCache st of
               None \<Rightarrow> cache0
             | Some serializedCache \<Rightarrow>
                 fold (\<lambda>e c. cacheSet (fst e) (snd e) c)
                   (if usesLRU serializedCache then entries serializedCache
                    else sortByCounter (entries serializedCache))
                   cache0)
      in st\<lparr>cache := Some cache1,
            counter := (case storedCounter st of Some n \<Rightarrow> n | None \<Rightarrow> counter st)\<rparr>)"

text \<open>The constructor: \<open>updateConfiguration()\<close>, then \<open>load()\<close>.\<close>

definition CommandsHistory :: "nat option \<Rightarrow> state \<Rightarrow> state" where
  "CommandsHistory config st = load (updateConfiguration config st)"

definition push :: "string \<Rightarrow> state \<Rightarrow> state" where
  "push commandId st =
     (case cache st of
        None \<Rightarrow> st
      | Some c \<Rightarrow>
          saveState (st\<lparr>cache := Some (cacheSet commandId (counter st) c),
                        counter := counter st + 1\<rparr>))"

definition peek :: "state \<Rightarrow> string \<Rightarrow> int option" where
  "peek st commandId = (case cache st of None \<Rightarrow> None | Some c \<Rightarrow> cachePeek c commandId)"

definition clearHistory :: "nat option \<Rightarrow> state \<Rightarrow> state" where
  "clearHistory config st =
     saveState (st\<lparr>cache := Some (newLRUCache (getConfiguredCommandHistoryLength config)),
                   counter := 1\<rparr>)"

text \<open>\<open>ClearCommandHistoryAction.run()\<close>: the history is cleared unless it is disabled.\<close>

definition clearCommandHistory :: "nat option \<Rightarrow> state \<Rightarrow> state" where
  "clearCommandHistory config st =
     (if getConfiguredCommandHistoryLength config > 0 then clearHistory config st else st)"

text \<open>
  \<open>ShowAllCommandsAction.run()\<close>: the value and the input selection the picker is shown
  with; \<open>restoreInput\<close> is the setting \<open>workbench.commandPalette.preserveInput\<close>.
\<close>

definition ALL_COMMANDS_PREFIX :: string where
  "ALL_COMMANDS_PREFIX = ''>''"

definition showAllCommands :: "bool \<Rightarrow> state \<Rightarrow> string \<times> (nat \<times> nat) option" where
  "showAllCommands restoreInput st =
     (let remembered =
            (case lastCommandPaletteInput st of None \<Rightarrow> False | Some t \<Rightarrow> t \<noteq> []);
          shown = (if restoreInput \<and> remembered
                   then ALL_COMMANDS_PREFIX @ the (lastCommandPaletteInput st)
                   else ALL_COMMANDS_PREFIX)
      in (shown, if remembered then Some (1, length shown) else None))"

section \<open>Palette entries: class BaseCommandEntry\<close>

text \<open>
  A highlight is a span (start, end) of the text it marks. A resolved keybinding is
  kept by the aria label it reports (\<open>getAriaLabel()\<close>, possibly null).
\<close>

type_synonym IHighlight = "nat \<times> nat"

type_synonym ResolvedKeybinding = "string option"

record Highlights =
  highlightsLabel :: "IHighlight list option"
  highlightsAlias :: "IHighlight list option"

datatype EntryClass = EditorActionCommandEntry | ActionCommandEntry

text \<open>
  Modelled from the spec: class \<open>QuickOpenEntryGroup\<close> of
  vs/base/parts/quickopen/browser/quickOpenModel, which \<open>BaseCommandEntry\<close> extends, is
  not among the sources. The spec's Candidate carries a group label, populated only
  during grouping, the visual separation from the entries before it, and the highlight
  spans of its match. They are the fields \<open>groupLabel\<close>, \<open>showBorder\<close> and the three
  highlight lists that \<open>setHighlights\<close> stores; the other fields are those of
  \<open>BaseCommandEntry\<close>.
\<close>

record entry =
  entryClass :: EntryClass
  commandId :: string
  keybinding :: "ResolvedKeybinding option"
  label :: string
  entryAlias :: "string option"
  labelLowercase :: string
  keybindingAriaLabel :: "string option"
  description :: "string option"
  groupLabel :: "string option"
  showBorder :: bool
  labelHighlights :: "IHighlight list option"
  descriptionHighlights :: "IHighlight list option"
  detailHighlights :: "IHighlight list option"

text \<open>
  The constructor. \<open>this.label !== alias\<close> compares the label with a string or with
  undefined; when they are equal the alias field stays unset and \<open>highlights.alias\<close>
  is overwritten with null before \<open>setHighlights\<close> is called.
\<close>

definition BaseCommandEntry ::
  "EntryClass \<Rightarrow> string \<Rightarrow> ResolvedKeybinding option \<Rightarrow> string \<Rightarrow> string option \<Rightarrow>
   Highlights \<Rightarrow> entry" where
  "BaseCommandEntry cls cid kb lbl als highlights =
     (let highlights' =
            (if Some lbl \<noteq> als then highlights else highlights\<lparr>highlightsAlias := None\<rparr>)
      in \<lparr>entryClass = cls,
          commandId = cid,
          keybinding = kb,
          label = lbl,
          entryAlias = (if Some lbl \<noteq> als then als else None),
          labelLowercase = toLowerCase lbl,
          keybindingAriaLabel =
            (case kb of
               None \<Rightarrow> None
             | Some k \<Rightarrow> (case k of None \<Rightarrow> None | Some a \<Rightarrow> if a = [] then None else Some a)),
          description = None,
          groupLabel = None,
          showBorder = False,
          labelHighlights = highlightsLabel highlights',
          descriptionHighlights = None,
          detailHighlights = highlightsAlias highlights'\<rparr>)"

definition getCommandId :: "entry \<Rightarrow> string" where
  "getCommandId e = commandId e"

definition getLabel :: "entry \<Rightarrow> string" where
  "getLabel e = label e"

definition getSortLabel :: "entry \<Rightarrow> string" where
  "getSortLabel e = labelLowercase e"

definition getDescription :: "entry \<Rightarrow> string option" where
  "getDescription e = description e"

definition setDescription :: "string \<Rightarrow> entry \<Rightarrow> entry" where
  "setDescription d e = e\<lparr>description := Some d\<rparr>"

definition getDetail :: "entry \<Rightarrow> string option" where
  "getDetail e = entryAlias e"

text \<open>
  Modelled from the spec: the getter and the setters of \<open>QuickOpenEntryGroup\<close> read and
  assign the Candidate's group label and separation.
\<close>

definition getGroupLabel :: "entry \<Rightarrow> string option" where
  "getGroupLabel e = groupLabel e"

definition setGroupLabel :: "string \<Rightarrow> entry \<Rightarrow> entry" where
  "setGroupLabel g e = e\<lparr>groupLabel := Some g\<rparr>"

definition setShowBorder :: "bool \<Rightarrow> entry \<Rightarrow> entry" where
  "setShowBorder b e = e\<lparr>showBorder := b\<rparr>"

section \<open>The picker: class CommandsHandler\<close>

text \<open>
  What the handler is given by its collaborators: the filter
  \<open>wordFilter = or(matchesPrefix, matchesWords, matchesContiguousSubString)\<close> (null is
  \<open>None\<close>), \<open>String.prototype.localeCompare\<close>, \<open>Language.isDefaultVariant()\<close>,
  the keybinding service's lookup, the supported actions of the active text editor widget
  (\<open>None\<close> when there is no widget or it has no \<open>getSupportedActions\<close>), and the groups
  of the command palette menu.
\<close>

record services =
  wordFilter :: "string \<Rightarrow> string \<Rightarrow> IHighlight list option"
  localeCompare :: "string \<Rightarrow> string \<Rightarrow> int"
  isDefaultVariant :: bool
  lookupKeybinding :: "string \<Rightarrow> ResolvedKeybinding option"
  getSupportedActions :: "IEditorAction list option"
  getActions :: "(string \<times> MenuAction list) list"

definition ShowAllCommandsAction_ID :: string where
  "ShowAllCommandsAction_ID = ''workbench.action.showCommands''"

text \<open>A string is truthy when it is not empty; an optional string when it is set and not empty.\<close>

definition truthyString :: "string option \<Rightarrow> bool" where
  "truthyString s = (case s of None \<Rightarrow> False | Some t \<Rightarrow> t \<noteq> [])"

fun editorActionsToEntries :: "services \<Rightarrow> IEditorAction list \<Rightarrow> string \<Rightarrow> entry list" where
  "editorActionsToEntries sv [] searchValue = []"
| "editorActionsToEntries sv (a # actions) searchValue =
     (if editorActionId a = ShowAllCommandsAction_ID
      then editorActionsToEntries sv actions searchValue
      else if editorActionLabel a \<noteq> [] then
        (let als = (if \<not> isDefaultVariant sv then Some (editorActionAlias a) else None);
             labelHl = wordFilter sv searchValue (editorActionLabel a);
             aliasHl = (if truthyString als then wordFilter sv searchValue (the als) else None)
         in if labelHl \<noteq> None \<or> aliasHl \<noteq> None
            then BaseCommandEntry EditorActionCommandEntry (editorActionId a)
                   (lookupKeybinding sv (editorActionId a)) (editorActionLabel a) als
                   \<lparr>highlightsLabel = labelHl, highlightsAlias = aliasHl\<rparr>
                 # editorActionsToEntries sv actions searchValue
            else editorActionsToEntries sv actions searchValue)
      else editorActionsToEntries sv actions searchValue)"

definition localizedValue :: "ILocalizedString \<Rightarrow> string" where
  "localizedValue t = (case t of Plain s \<Rightarrow> s | Localized v orig \<Rightarrow> v)"

text \<open>A category is truthy unless it is absent or the empty plain string.\<close>

definition truthyCategory :: "ILocalizedString option \<Rightarrow> bool" where
  "truthyCategory c = (case c of None \<Rightarrow> False | Some (Plain s) \<Rightarrow> s \<noteq> [] | Some (Localized v orig) \<Rightarrow> True)"

text \<open>
  \<open>localize('cat.title', "{0}: {1}", category, title)\<close> with its default message.
  The result is the entry's label, its alias and their highlights, or nothing when the
  action yields no entry.
\<close>

definition menuItemActionToEntry :: "services \<Rightarrow> MenuItemAction \<Rightarrow> string \<Rightarrow> entry option" where
  "menuItemActionToEntry sv a searchValue =
     (let title = localizedValue (itemTitle a);
          category = (if truthyCategory (itemCategory a)
                      then Some (localizedValue (the (itemCategory a))) else None);
          lbl = (case category of None \<Rightarrow> title | Some c \<Rightarrow> c @ '': '' @ title)
      in if lbl \<noteq> [] then
           (let labelHl = wordFilter sv searchValue lbl;
                aliasTitle =
                  (case itemTitle a of
                     Localized v orig \<Rightarrow> if \<not> isDefaultVariant sv then Some orig else None
                   | Plain s \<Rightarrow> None);
                aliasCategory =
                  (if \<not> isDefaultVariant sv \<and> truthyString category
                   then (case itemCategory a of
                           Some (Localized v orig) \<Rightarrow> Some orig
                         | _ \<Rightarrow> None)
                   else None);
                als =
                  (if truthyString aliasTitle \<and> truthyString category
                   then (if truthyString aliasCategory
                         then Some (the aliasCategory @ '': '' @ the aliasTitle)
                         else Some (the category @ '': '' @ the aliasTitle))
                   else if truthyString aliasTitle then aliasTitle
                   else None);
                aliasHl = (if truthyString als then wordFilter sv searchValue (the als) else None)
            in if labelHl \<noteq> None \<or> aliasHl \<noteq> None
               then Some (BaseCommandEntry ActionCommandEntry (menuActionId a)
                            (lookupKeybinding sv (itemId a)) lbl als
                            \<lparr>highlightsLabel = labelHl, highlightsAlias = aliasHl\<rparr>)
               else None)
         else None)"

definition menuItemActionsToEntries :: "services \<Rightarrow> MenuItemAction list \<Rightarrow> string \<Rightarrow> entry list" where
  "menuItemActionsToEntries sv actions searchValue =
     List.map_filter (\<lambda>a. menuItemActionToEntry sv a searchValue) actions"

text \<open>
  Modelled from the spec: \<open>distinct(array, keyFn)\<close> of vs/base/common/arrays is not among
  the sources. The spec's Deduplicating stage removes the candidates whose key is a
  duplicate of an earlier one and preserves first-seen order.
\<close>

fun distinctSeen :: "('a \<Rightarrow> string) \<Rightarrow> string set \<Rightarrow> 'a list \<Rightarrow> 'a list" where
  "distinctSeen keyFn seen [] = []"
| "distinctSeen keyFn seen (x # xs) =
     (if keyFn x \<in> seen then distinctSeen keyFn seen xs
      else x # distinctSeen keyFn (insert (keyFn x) seen) xs)"

definition distinctBy :: "('a \<Rightarrow> string) \<Rightarrow> 'a list \<Rightarrow> 'a list" where
  "distinctBy keyFn xs = distinctSeen keyFn {} xs"

text \<open>The key of "Remove duplicates": \<open>`${getLabel()}${getGroupLabel()}${getCommandId()}`\<close>.\<close>

definition duplicateKey :: "entry \<Rightarrow> string" where
  "duplicateKey e = getLabel e @ templateStr (getGroupLabel e) @ getCommandId e"

text \<open>"Handle label clashes": the \<open>forEach\<close> over the entries with the set \<open>commandLabels\<close>.\<close>

definition commandLabel :: "entry \<Rightarrow> string" where
  "commandLabel e = getLabel e @ templateStr (getGroupLabel e)"

fun handleLabelClashes :: "string set \<Rightarrow> entry list \<Rightarrow> entry list" where
  "handleLabelClashes commandLabels [] = []"
| "handleLabelClashes commandLabels (e # es) =
     (if commandLabel e \<in> commandLabels
      then setDescription (getCommandId e) e # handleLabelClashes commandLabels es
      else e # handleLabelClashes (insert (commandLabel e) commandLabels) es)"

text \<open>
  "Sort by MRU order and fallback to name otherwise": the comparator handed to
  \<open>entries.sort\<close>. A counter is truthy when it is recorded and not zero.
\<close>

definition truthy :: "int option \<Rightarrow> bool" where
  "truthy c = (case c of None \<Rightarrow> False | Some n \<Rightarrow> n \<noteq> 0)"

definition compareMRU :: "(string \<Rightarrow> string \<Rightarrow> int) \<Rightarrow> state \<Rightarrow> entry \<Rightarrow> entry \<Rightarrow> int" where
  "compareMRU lc st elementA elementB =
     (let counterA = peek st (getCommandId elementA);
          counterB = peek st (getCommandId elementB)
      in if truthy counterA \<and> truthy counterB
         then (if the counterA > the counterB then - 1 else 1)
         else if truthy counterA then - 1
         else if truthy counterB then 1
         else lc (getSortLabel elementA) (getSortLabel elementB))"

text \<open>
  "Introduce group marker border between recently used and others": the loop from
  index 1 that stops at the first entry without a counter, and the test of the first
  entry around it.
\<close>

fun markOtherCommands :: "state \<Rightarrow> entry list \<Rightarrow> entry list" where
  "markOtherCommands st [] = []"
| "markOtherCommands st (e # es) =
     (if \<not> truthy (peek st (getCommandId e))
      then setGroupLabel ''other commands'' (setShowBorder True e) # es
      else e # markOtherCommands st es)"

definition introduceGroupMarker :: "state \<Rightarrow> entry list \<Rightarrow> entry list" where
  "introduceGroupMarker st es =
     (case es of
        [] \<Rightarrow> []
      | firstEntry # rest \<Rightarrow>
          if truthy (peek st (getCommandId firstEntry))
          then setGroupLabel ''recently used'' firstEntry # markOtherCommands st rest
          else es)"

text \<open>
  \<open>doGetResults(searchValue, token)\<close>: the token is its \<open>isCancellationRequested\<close>; the
  result is the new state and the entries of the returned model.
\<close>

definition menuItemActions :: "(string \<times> MenuAction list) list \<Rightarrow> MenuItemAction list" where
  "menuItemActions groups =
     List.map_filter (\<lambda>a. case a of MenuItem m \<Rightarrow> Some m | SubmenuItem \<Rightarrow> None)
       (concat (map snd groups))"

definition doGetResults :: "services \<Rightarrow> string \<Rightarrow> bool \<Rightarrow> state \<Rightarrow> state \<times> entry list" where
  "doGetResults sv searchValue token st =
     (if token then (st, [])
      else
        (let searchValue' = trim searchValue;
             st1 = st\<lparr>lastCommandPaletteInput := Some searchValue'\<rparr>;
             editorActions = (case getSupportedActions sv of None \<Rightarrow> [] | Some as \<Rightarrow> as);
             editorEntries = editorActionsToEntries sv editorActions searchValue';
             menuActions = menuItemActions (getActions sv);
             commandEntries = menuItemActionsToEntries sv menuActions searchValue';
             st2 = st1\<lparr>disposeOnClose := disposeOnClose st1 @ [menuActions]\<rparr>;
             es0 = editorEntries @ commandEntries;
             es1 = distinctBy duplicateKey es0;
             es2 = handleLabelClashes {} es1;
             es3 = arraySort (compareMRU (localeCompare sv) st2) es2;
             es4 = introduceGroupMarker st2 es3
         in (st2, es4)))"

text \<open>
  \<open>async getResults(searchValue, token)\<close> runs in two parts. The first part runs to the
  \<open>await\<close>: it returns the results at once when the flag is set, and otherwise suspends
  on \<open>Promise.race([timeout(800).then(), whenInstalledExtensionsRegistered()])\<close>. The
  second part runs when the race has settled: it sets the flag and calls
  \<open>doGetResults\<close> with the token as it is then. The constructor's callback on
  \<open>whenInstalledExtensionsRegistered()\<close> sets the flag too.
\<close>

datatype promise = Timeout nat | WhenInstalledExtensionsRegistered

datatype 'r async = Returned 'r | AwaitRace "promise list"

definition getResults :: "services \<Rightarrow> string \<Rightarrow> bool \<Rightarrow> state \<Rightarrow> (state \<times> entry list) async" where
  "getResults sv searchValue token st =
     (if waitedForExtensionsRegistered st then Returned (doGetResults sv searchValue token st)
      else AwaitRace [Timeout 800, WhenInstalledExtensionsRegistered])"

definition getResultsResumed :: "services \<Rightarrow> string \<Rightarrow> bool \<Rightarrow> state \<Rightarrow> state \<times> entry list" where
  "getResultsResumed sv searchValue token st =
     doGetResults sv searchValue token (st\<lparr>waitedForExtensionsRegistered := True\<rparr>)"

definition onInstalledExtensionsRegistered :: "state \<Rightarrow> state" where
  "onInstalledExtensionsRegistered st = st\<lparr>waitedForExtensionsRegistered := True\<rparr>"

definition onBeforeRunCommand :: "string \<Rightarrow> state \<Rightarrow> state" where
  "onBeforeRunCommand cid st = push cid st"

definition onClose :: "state \<Rightarrow> state" where
  "onClose st = st\<lparr>disposeOnClose := []\<rparr>"

text \<open>
  A session of the handler is a sequence of events: a query enters \<open>getResults\<close>, a
  suspended query is resumed when its race has settled, the extension service reports
  that the installed extensions are registered, a command is run from the palette.
  A query carries the collaborators' answers, the search value and the token as they
  are when its part runs.
\<close>

datatype event =
    QueryEntered services string bool
  | QueryResumed services string bool
  | ExtensionsRegistered
  | CommandRun string

fun step :: "event \<Rightarrow> state \<Rightarrow> state" where
  "step (QueryEntered sv searchValue token) st =
     (case getResults sv searchValue token st of
        Returned r \<Rightarrow> fst r
      | AwaitRace ps \<Rightarrow> st)"
| "step (QueryResumed sv searchValue token) st = fst (getResultsResumed sv searchValue token st)"
| "step ExtensionsRegistered st = onInstalledExtensionsRegistered st"
| "step (CommandRun cid) st = onBeforeRunCommand cid st"

text \<open>
  When a race settles: \<open>timeout(ms)\<close> settles after \<open>ms\<close> time units,
  \<open>whenInstalledExtensionsRegistered()\<close> after the time the registration still takes
  (\<open>None\<close>: never), and \<open>Promise.race\<close> with the first of its promises.
\<close>

fun settlesAfter :: "nat option \<Rightarrow> promise \<Rightarrow> nat option" where
  "settlesAfter registered (Timeout ms) = Some ms"
| "settlesAfter registered WhenInstalledExtensionsRegistered = registered"

fun raceSettlesAfter :: "nat option \<Rightarrow> promise list \<Rightarrow> nat option" where
  "raceSettlesAfter registered [] = None"
| "raceSettlesAfter registered (p # ps) =
     (case (settlesAfter registered p, raceSettlesAfter registered ps) of
        (None, t) \<Rightarrow> t
      | (Some a, None) \<Rightarrow> Some a
      | (Some a, Some b) \<Rightarrow> Some (min a b))"

section \<open>Processes and profiles\<close>

text \<open>
  A new process starts with the statics and the handler's fields at their initial
  values and with the storage as the last process left it; a fresh profile has nothing
  stored, a legacy profile a history in the legacy encoding. What happens to the state
  is a sequence of operations: an event of the handler's session, the construction of a
  \<open>CommandsHistory\<close>, a change of the configuration, the action that clears the
  history, a new process.
\<close>

definition newProcess :: "state \<Rightarrow> state" where
  "newProcess st =
     st\<lparr>cache := None, counter := 1, lastCommandPaletteInput := None,
        configuredCommandsHistoryLength := 0, waitedForExtensionsRegistered := False,
        disposeOnClose := []\<rparr>"

definition freshProfile :: state where
  "freshProfile =
     \<lparr>cache = None, counter = 1, lastCommandPaletteInput = None, storedCache = None,
      storedCounter = None, configuredCommandsHistoryLength = 0,
      waitedForExtensionsRegistered = False, disposeOnClose = []\<rparr>"

definition legacyProfile :: "(string \<times> int) list \<Rightarrow> int \<Rightarrow> state" where
  "legacyProfile es n =
     freshProfile\<lparr>storedCache := Some \<lparr>usesLRU = False, entries = es\<rparr>, storedCounter := Some n\<rparr>"

datatype operation =
    InSession event
  | NewCommandsHistory "nat option"
  | ConfigurationChanged "nat option"
  | ClearCommandHistory "nat option"
  | NewProcess

fun perform :: "operation \<Rightarrow> state \<Rightarrow> state" where
  "perform (InSession e) st = step e st"
| "perform (NewCommandsHistory config) st = CommandsHistory config st"
| "perform (ConfigurationChanged config) st = updateConfiguration config st"
| "perform (ClearCommandHistory config) st = clearCommandHistory config st"
| "perform NewProcess st = newProcess st"

section \<open>Vocabulary of the properties\<close>

text \<open>An entry has a recorded counter when the comparator and the group marker see one.\<close>

definition hasCounter :: "state \<Rightarrow> entry \<Rightarrow> bool" where
  "hasCounter st e = truthy (peek st (getCommandId e))"

text \<open>
  The invariant of the history: the next counter to hand out is positive, and the cache
  holds at most \<open>limit\<close> entries, one per command, in ascending order of their counters,
  which are positive and below the next counter.
\<close>

definition historyInvariant :: "state \<Rightarrow> bool" where
  "historyInvariant st =
     (0 < counter st \<and>
      (case cache st of
         None \<Rightarrow> True
       | Some c \<Rightarrow>
           length (items c) \<le> limit c \<and> distinct (map fst (items c)) \<and>
           sorted_wrt (<) (map snd (items c)) \<and>
           list_all (\<lambda>e. 0 < snd e \<and> snd e < counter st) (items c)))"

text \<open>
  The invariant of the storage: a stored cache comes with a positive stored counter that
  bounds its positive counters, which ascend in the new encoding and are pairwise
  distinct in the legacy encoding. A profile is sound when both invariants hold; a
  cache is sound below a bound when it has the properties the history invariant names.
\<close>

definition storageInvariant :: "state \<Rightarrow> bool" where
  "storageInvariant st =
     (case storedCounter st of
        None \<Rightarrow> storedCache st = None
      | Some n \<Rightarrow>
          0 < n \<and>
          (case storedCache st of
             None \<Rightarrow> True
           | Some s \<Rightarrow>
               list_all (\<lambda>e. 0 < snd e \<and> snd e < n) (entries s) \<and>
               (if usesLRU s then sorted_wrt (<) (map snd (entries s))
                else distinct (map snd (entries s)))))"

definition cacheOK :: "int \<Rightarrow> LRUCache \<Rightarrow> bool" where
  "cacheOK n c \<longleftrightarrow> length (items c) \<le> limit c \<and> distinct (map fst (items c)) \<and>
     sorted_wrt (<) (map snd (items c)) \<and> list_all (\<lambda>e. 0 < snd e \<and> snd e < n) (items c)"

definition profileInvariant :: "state \<Rightarrow> bool" where
  "profileInvariant st \<longleftrightarrow> historyInvariant st \<and> storageInvariant st"

text \<open>
  A comparator read by its negative answers, as the sort reads it: \<open>a\<close> is before \<open>b\<close>
  when \<open>cmp a b < 0\<close>. It is a strict weak order when "before" is asymmetric and
  negatively transitive; two elements are tied when neither is before the other.
\<close>

definition strictWeakOrderOn :: "('a \<Rightarrow> 'a \<Rightarrow> int) \<Rightarrow> 'a set \<Rightarrow> bool" where
  "strictWeakOrderOn cmp A \<longleftrightarrow>
     (\<forall>a\<in>A. \<forall>b\<in>A. cmp a b < 0 \<longrightarrow> \<not> cmp b a < 0) \<and>
     (\<forall>a\<in>A. \<forall>b\<in>A. \<forall>c\<in>A. cmp a b < 0 \<longrightarrow> cmp a c < 0 \<or> cmp c b < 0)"

definition tied :: "('a \<Rightarrow> 'a \<Rightarrow> int) \<Rightarrow> 'a \<Rightarrow> 'a \<Rightarrow> bool" where
  "tied cmp a b \<longleftrightarrow> \<not> cmp a b < 0 \<and> \<not> cmp b a < 0"

text \<open>
  What a push finds in the cache once its entry is in place, and what it evicts: the
  entries \<open>checkTrim\<close> cuts off.
\<close>

definition presentAtPush :: "string \<Rightarrow> state \<Rightarrow> (string \<times> int) list" where
  "presentAtPush cid st =
     (case cache st of None \<Rightarrow> [] | Some c \<Rightarrow> touch cid (counter st) (items c))"

definition evictedByPush :: "string \<Rightarrow> state \<Rightarrow> (string \<times> int) list" where
  "evictedByPush cid st =
     (case cache st of
        None \<Rightarrow> []
      | Some c \<Rightarrow> trimmed (c\<lparr>items := touch cid (counter st) (items c)\<rparr>))"

text \<open>
  The two persisted encodings of a history: the entries in any order, to be sorted by
  counter on load (\<open>usesLRU\<close> absent or false), and the entries in recency order
  (\<open>usesLRU\<close> true).
\<close>

definition loadLegacy :: "state \<Rightarrow> (string \<times> int) list \<Rightarrow> state" where
  "loadLegacy st legacy = load (st\<lparr>storedCache := Some \<lparr>usesLRU = False, entries = legacy\<rparr>\<rparr>)"

definition loadLRU :: "state \<Rightarrow> (string \<times> int) list \<Rightarrow> state" where
  "loadLRU st hist = load (st\<lparr>storedCache := Some \<lparr>usesLRU = True, entries = hist\<rparr>\<rparr>)"

text \<open>The events that set the handler's flag \<open>waitedForExtensionsRegistered\<close>.\<close>

fun setsTheFlag :: "event \<Rightarrow> bool" where
  "setsTheFlag (QueryEntered sv searchValue token) = False"
| "setsTheFlag (QueryResumed sv searchValue token) = True"
| "setsTheFlag ExtensionsRegistered = True"
| "setsTheFlag (CommandRun cid) = False"

section \<open>Example inputs\<close>

text \<open>
  A \<open>localeCompare\<close> for the examples: the comparison of the strings by their code units.
\<close>

fun compareCodeUnits :: "string \<Rightarrow> string \<Rightarrow> int" where
  "compareCodeUnits [] [] = 0"
| "compareCodeUnits [] (y # ys) = - 1"
| "compareCodeUnits (x # xs) [] = 1"
| "compareCodeUnits (x # xs) (y # ys) =
     (if (of_char x :: nat) < of_char y then - 1
      else if (of_char y :: nat) < of_char x then 1
      else compareCodeUnits xs ys)"

text \<open>
  A command of the palette menu with a plain title; the palette of the default language
  with these commands and no active editor, whose filter answers the empty query (every
  text matches, without highlights); a state whose history holds the given entries.
\<close>

definition command :: "string \<Rightarrow> string \<Rightarrow> MenuItemAction" where
  "command cid title =
     \<lparr>menuActionId = cid, itemId = cid, itemTitle = Plain title, itemCategory = None\<rparr>"

definition paletteOf :: "MenuItemAction list \<Rightarrow> services" where
  "paletteOf cmds =
     \<lparr>wordFilter = (\<lambda>q t. if q = [] then Some [] else None),
      localeCompare = compareCodeUnits,
      isDefaultVariant = True,
      lookupKeybinding = (\<lambda>c. None),
      getSupportedActions = None,
      getActions = [([], map MenuItem cmds)]\<rparr>"

definition historyOf :: "nat \<Rightarrow> (string \<times> int) list \<Rightarrow> int \<Rightarrow> state" where
  "historyOf n es c =
     \<lparr>cache = Some \<lparr>limit = n, items = es\<rparr>, counter = c, lastCommandPaletteInput = None,
      storedCache = None, storedCounter = None, configuredCommandsHistoryLength = n,
      waitedForExtensionsRegistered = False, disposeOnClose = []\<rparr>"

definition candidate :: "string \<Rightarrow> string \<Rightarrow> entry" where
  "candidate cid lbl =
     BaseCommandEntry ActionCommandEntry cid None lbl None
       \<lparr>highlightsLabel = Some [], highlightsAlias = None\<rparr>"

section \<open>Sorting with a comparator\<close>

text \<open>
  The sort returns a permutation of its input. When the comparator, read by its negative
  answers, is a strict weak order on the elements, no element of the result is before
  an element that precedes it, and tied elements keep the order they had in the input.
\<close>

lemma insertSorted_set: "set (insertSorted cmp x ys) = insert x (set ys)"
  by (induction ys) auto

lemma insertSorted_mset: "mset (insertSorted cmp x ys) = add_mset x (mset ys)"
  by (induction ys) auto

lemma fold_insertSorted_mset: "mset (fold (insertSorted cmp) xs acc) = mset xs + mset acc"
  by (induction xs arbitrary: acc) (simp_all add: insertSorted_mset)

lemma arraySort_mset: "mset (arraySort cmp xs) = mset xs"
  by (simp add: arraySort_def fold_insertSorted_mset)

lemma swo_asym:
  "strictWeakOrderOn cmp A \<Longrightarrow> a \<in> A \<Longrightarrow> b \<in> A \<Longrightarrow> cmp a b < 0 \<Longrightarrow> \<not> cmp b a < 0"
  unfolding strictWeakOrderOn_def by blast

lemma swo_negtrans:
  "strictWeakOrderOn cmp A \<Longrightarrow> a \<in> A \<Longrightarrow> b \<in> A \<Longrightarrow> c \<in> A \<Longrightarrow> cmp a b < 0 \<Longrightarrow>
   cmp a c < 0 \<or> cmp c b < 0"
  unfolding strictWeakOrderOn_def by blast

lemma swo_trans:
  assumes "strictWeakOrderOn cmp A" "a \<in> A" "b \<in> A" "c \<in> A" "cmp a b < 0" "cmp b c < 0"
  shows "cmp a c < 0"
  using swo_negtrans [OF assms(1,2,3,4,5)] swo_asym [OF assms(1,3,4,6)] by blast

lemma swo_subset: "strictWeakOrderOn cmp A \<Longrightarrow> B \<subseteq> A \<Longrightarrow> strictWeakOrderOn cmp B"
  unfolding strictWeakOrderOn_def by blast

lemma insertSorted_sorted:
  assumes swo: "strictWeakOrderOn cmp A" and x: "x \<in> A"
  shows "set ys \<subseteq> A \<Longrightarrow> sorted_wrt (\<lambda>a b. \<not> cmp b a < 0) ys \<Longrightarrow>
         sorted_wrt (\<lambda>a b. \<not> cmp b a < 0) (insertSorted cmp x ys)"
proof (induction ys)
  case Nil
  then show ?case by simp
next
  case (Cons y ys)
  from Cons.prems have y: "y \<in> A" and ys: "set ys \<subseteq> A"
    and sy: "\<forall>z\<in>set ys. \<not> cmp z y < 0" and s: "sorted_wrt (\<lambda>a b. \<not> cmp b a < 0) ys"
    by simp_all
  show ?case
  proof (cases "cmp x y < 0")
    case True
    have "\<not> cmp z x < 0" if z: "z \<in> set (y # ys)" for z
    proof
      assume zx: "cmp z x < 0"
      have zA: "z \<in> A" using z y ys by auto
      have zy: "cmp z y < 0" by (rule swo_trans [OF swo zA x y zx True])
      show False
      proof (cases "z = y")
        case True
        with zy swo_asym [OF swo y y] show False by blast
      next
        case False
        with z have "z \<in> set ys" by simp
        with sy zy show False by blast
      qed
    qed
    with True Cons.prems show ?thesis by simp
  next
    case False
    have "sorted_wrt (\<lambda>a b. \<not> cmp b a < 0) (insertSorted cmp x ys)"
      by (rule Cons.IH [OF ys s])
    with False sy show ?thesis by (simp add: insertSorted_set)
  qed
qed

lemma tied_trans:
  assumes swo: "strictWeakOrderOn cmp A" and "a \<in> A" "b \<in> A" "c \<in> A"
    and "tied cmp a b" "tied cmp b c"
  shows "tied cmp a c"
  using assms swo_negtrans [OF swo, of a c b] swo_negtrans [OF swo, of c a b]
  unfolding tied_def by blast

lemma tied_sym: "tied cmp a b \<Longrightarrow> tied cmp b a"
  unfolding tied_def by blast

lemma insertSorted_stable:
  assumes swo: "strictWeakOrderOn cmp A" and x: "x \<in> A" and k: "k \<in> A"
  shows "set ys \<subseteq> A \<Longrightarrow> sorted_wrt (\<lambda>a b. \<not> cmp b a < 0) ys \<Longrightarrow>
         filter (tied cmp k) (insertSorted cmp x ys)
           = filter (tied cmp k) ys @ (if tied cmp k x then [x] else [])"
proof (induction ys)
  case Nil
  then show ?case by simp
next
  case (Cons y ys)
  from Cons.prems have y: "y \<in> A" and ys: "set ys \<subseteq> A"
    and sy: "\<forall>z\<in>set ys. \<not> cmp z y < 0" and s: "sorted_wrt (\<lambda>a b. \<not> cmp b a < 0) ys"
    by simp_all
  show ?case
  proof (cases "cmp x y < 0")
    case True
    show ?thesis
    proof (cases "tied cmp k x")
      case False
      with True show ?thesis by simp
    next
      case kx: True
      have "\<not> tied cmp k z" if z: "z \<in> set (y # ys)" for z
      proof
        assume kz: "tied cmp k z"
        have zA: "z \<in> A" using z y ys by auto
        have xz: "tied cmp x z"
          by (rule tied_trans [OF swo x k zA tied_sym [OF kx] kz])
        have "cmp x z < 0 \<or> cmp z y < 0"
          by (rule swo_negtrans [OF swo x y zA True])
        then have zy: "cmp z y < 0" using xz by (simp add: tied_def)
        show False
        proof (cases "z = y")
          case True
          with zy swo_asym [OF swo y y] show False by blast
        next
          case False
          with z have "z \<in> set ys" by simp
          with sy zy show False by blast
        qed
      qed
      then have "filter (tied cmp k) (y # ys) = []"
        by (simp only: filter_empty_conv) blast
      with True kx show ?thesis by simp
    qed
  next
    case False
    with Cons.IH [OF ys s] show ?thesis by simp
  qed
qed

lemma fold_insertSorted_sorted:
  assumes swo: "strictWeakOrderOn cmp A"
  shows "set xs \<subseteq> A \<Longrightarrow> set acc \<subseteq> A \<Longrightarrow> sorted_wrt (\<lambda>a b. \<not> cmp b a < 0) acc \<Longrightarrow>
         sorted_wrt (\<lambda>a b. \<not> cmp b a < 0) (fold (insertSorted cmp) xs acc)"
proof (induction xs arbitrary: acc)
  case Nil
  then show ?case by simp
next
  case (Cons x xs)
  from Cons.prems have x: "x \<in> A" and xs: "set xs \<subseteq> A" by simp_all
  have "sorted_wrt (\<lambda>a b. \<not> cmp b a < 0) (insertSorted cmp x acc)"
    by (rule insertSorted_sorted [OF swo x Cons.prems(2,3)])
  moreover have "set (insertSorted cmp x acc) \<subseteq> A"
    using x Cons.prems(2) by (simp add: insertSorted_set)
  ultimately show ?case using Cons.IH [OF xs] by simp
qed

lemma fold_insertSorted_stable:
  assumes swo: "strictWeakOrderOn cmp A" and k: "k \<in> A"
  shows "set xs \<subseteq> A \<Longrightarrow> set acc \<subseteq> A \<Longrightarrow> sorted_wrt (\<lambda>a b. \<not> cmp b a < 0) acc \<Longrightarrow>
         filter (tied cmp k) (fold (insertSorted cmp) xs acc)
           = filter (tied cmp k) acc @ filter (tied cmp k) xs"
proof (induction xs arbitrary: acc)
  case Nil
  then show ?case by simp
next
  case (Cons x xs)
  from Cons.prems have x: "x \<in> A" and xs: "set xs \<subseteq> A" by simp_all
  have s: "sorted_wrt (\<lambda>a b. \<not> cmp b a < 0) (insertSorted cmp x acc)"
    by (rule insertSorted_sorted [OF swo x Cons.prems(2,3)])
  have a: "set (insertSorted cmp x acc) \<subseteq> A"
    using x Cons.prems(2) by (simp add: insertSorted_set)
  have "filter (tied cmp k) (fold (insertSorted cmp) (x # xs) acc)
      = filter (tied cmp k) (insertSorted cmp x acc) @ filter (tied cmp k) xs"
    using Cons.IH [OF xs a s] by simp
  also have "\<dots> = (filter (tied cmp k) acc @ (if tied cmp k x then [x] else []))
                    @ filter (tied cmp k) xs"
    by (simp only: insertSorted_stable [OF swo x k Cons.prems(2,3)])
  also have "\<dots> = filter (tied cmp k) acc @ filter (tied cmp k) (x # xs)"
    by simp
  finally show ?case .
qed

lemma arraySort_sorted_stable:
  assumes swo: "strictWeakOrderOn cmp (set xs)"
  shows "mset (arraySort cmp xs) = mset xs
       \<and> sorted_wrt (\<lambda>a b. \<not> cmp b a < 0) (arraySort cmp xs)
       \<and> (\<forall>k\<in>set xs. filter (tied cmp k) (arraySort cmp xs) = filter (tied cmp k) xs)"
proof (intro conjI ballI)
  show "mset (arraySort cmp xs) = mset xs"
    by (rule arraySort_mset)
  show "sorted_wrt (\<lambda>a b. \<not> cmp b a < 0) (arraySort cmp xs)"
    unfolding arraySort_def by (rule fold_insertSorted_sorted [OF swo]) simp_all
  fix k assume "k \<in> set xs"
  from fold_insertSorted_stable [OF swo this, of xs "[]"]
  show "filter (tied cmp k) (arraySort cmp xs) = filter (tied cmp k) xs"
    by (simp add: arraySort_def)
qed

lemma sorted_permutation_unique:
  assumes swo: "strictWeakOrderOn cmp A"
  shows "set zs \<subseteq> A \<Longrightarrow> sorted_wrt (\<lambda>a b. cmp a b < 0) zs \<Longrightarrow>
         sorted_wrt (\<lambda>a b. \<not> cmp b a < 0) ys \<Longrightarrow> mset ys = mset zs \<Longrightarrow> ys = zs"
proof (induction zs arbitrary: ys)
  case Nil
  then show ?case by simp
next
  case (Cons z zs)
  from Cons.prems(4) have "ys \<noteq> []" by auto
  then obtain y ys' where ys: "ys = y # ys'" by (cases ys) auto
  have sets: "set ys = set (z # zs)" using Cons.prems(4) by (rule mset_eq_setD)
  have yz: "y = z"
  proof (rule ccontr)
    assume ne: "y \<noteq> z"
    have "y \<in> set zs" using sets ys ne by auto
    then have zy: "cmp z y < 0" using Cons.prems(2) by simp
    have "z \<in> set ys'" using sets ys ne by auto
    then have "\<not> cmp z y < 0" using Cons.prems(3) ys by simp
    with zy show False by simp
  qed
  have "ys' = zs"
  proof (rule Cons.IH)
    show "set zs \<subseteq> A" using Cons.prems(1) by simp
    show "sorted_wrt (\<lambda>a b. cmp a b < 0) zs" using Cons.prems(2) by simp
    show "sorted_wrt (\<lambda>a b. \<not> cmp b a < 0) ys'" using Cons.prems(3) ys by simp
    show "mset ys' = mset zs" using Cons.prems(4) ys yz by simp
  qed
  with ys yz show ?case by simp
qed

section \<open>Entries: an alias equal to the label\<close>

text \<open>
  C9. When the alias handed to the constructor is the label itself, the entry has no
  detail (\<open>getDetail()\<close> is undefined) and no detail highlights, whatever alias
  highlights the caller supplied.
\<close>

theorem alias_equal_label_is_absent:
  assumes "als = Some lbl"
  shows "getDetail (BaseCommandEntry cls cid kb lbl als hl) = None
       \<and> detailHighlights (BaseCommandEntry cls cid kb lbl als hl) = None
       \<and> labelHighlights (BaseCommandEntry cls cid kb lbl als hl) = highlightsLabel hl"
  using assms by (simp add: BaseCommandEntry_def getDetail_def)

theorem alias_equal_label_is_absent_witness:
  "getDetail (BaseCommandEntry EditorActionCommandEntry ''editor.action.save'' None ''Save''
      (Some ''Save'') \<lparr>highlightsLabel = Some [(0, 2)], highlightsAlias = Some [(0, 2)]\<rparr>) = None
   \<and> detailHighlights (BaseCommandEntry EditorActionCommandEntry ''editor.action.save'' None ''Save''
      (Some ''Save'') \<lparr>highlightsLabel = Some [(0, 2)], highlightsAlias = Some [(0, 2)]\<rparr>) = None"
  using alias_equal_label_is_absent [of "Some ''Save''" "''Save''" EditorActionCommandEntry
      "''editor.action.save''" None "\<lparr>highlightsLabel = Some [(0, 2)], highlightsAlias = Some [(0, 2)]\<rparr>"]
  by simp

section \<open>A cancelled query\<close>

text \<open>
  C10. With the cancellation already requested when \<open>doGetResults\<close> is entered, the
  model returned is empty and the state is the state before the call: the last command
  palette input, the history, the storage and the handler's fields are untouched, and
  the picker would be shown with the same value as before. A query that is not
  cancelled does record its trimmed text.
\<close>

theorem cancelled_query_changes_nothing:
  "doGetResults sv searchValue True st = (st, [])
   \<and> showAllCommands restoreInput (fst (doGetResults sv searchValue True st))
       = showAllCommands restoreInput st
   \<and> lastCommandPaletteInput (fst (doGetResults sv searchValue False st))
       = Some (trim searchValue)"
  by (simp add: doGetResults_def Let_def)

section \<open>Duplicate removal\<close>

text \<open>
  The duplicate removal keeps, in their order, exactly the elements whose key no earlier
  element has; candidates with the same label, group label and command id have the same
  key.
\<close>

lemma distinctSeen_subset: "set (distinctSeen keyFn S xs) \<subseteq> set xs"
  by (induction xs arbitrary: S) auto

lemma upt_Suc_shift: "[0..<Suc n] = 0 # map Suc [0..<n]"
  by (simp add: upt_conv_Cons map_Suc_upt del: upt_Suc)

lemma distinctSeen_indices:
  "distinctSeen keyFn S xs =
     map (nth xs)
       (filter (\<lambda>i. keyFn (xs ! i) \<notin> S \<and> (\<forall>j<i. keyFn (xs ! j) \<noteq> keyFn (xs ! i)))
          [0..<length xs])"
proof (induction xs arbitrary: S)
  case Nil
  then show ?case by simp
next
  case (Cons x xs)
  have all: "(\<forall>j<Suc i. keyFn ((x # xs) ! j) \<noteq> k) \<longleftrightarrow>
             (keyFn x \<noteq> k \<and> (\<forall>j<i. keyFn (xs ! j) \<noteq> k))" for i k
    by (auto simp: less_Suc_eq_0_disj)
  have len: "[0..<length (x # xs)] = 0 # map Suc [0..<length xs]"
    using upt_Suc_shift [of "length xs"] by simp
  show ?case
  proof (cases "keyFn x \<in> S")
    case True
    have P: "(\<lambda>i. keyFn (xs ! i) \<notin> S \<and> keyFn x \<noteq> keyFn (xs ! i)
                   \<and> (\<forall>j<i. keyFn (xs ! j) \<noteq> keyFn (xs ! i)))
           = (\<lambda>i. keyFn (xs ! i) \<notin> S \<and> (\<forall>j<i. keyFn (xs ! j) \<noteq> keyFn (xs ! i)))"
      using True by (intro ext) auto
    show ?thesis
      using True Cons.IH [of S]
      by (simp only: len distinctSeen.simps) (simp add: filter_map comp_def all P)
  next
    case False
    have P: "(\<lambda>i. keyFn (xs ! i) \<noteq> keyFn x \<and> keyFn (xs ! i) \<notin> S
                   \<and> (\<forall>j<i. keyFn (xs ! j) \<noteq> keyFn (xs ! i)))
           = (\<lambda>i. keyFn (xs ! i) \<notin> S \<and> keyFn x \<noteq> keyFn (xs ! i)
                   \<and> (\<forall>j<i. keyFn (xs ! j) \<noteq> keyFn (xs ! i)))"
      by (intro ext) auto
    show ?thesis
      using False Cons.IH [of "insert (keyFn x) S"]
      by (simp only: len distinctSeen.simps) (simp add: filter_map comp_def all P)
  qed
qed

lemma distinctBy_keeps_first_of_each_key:
  "distinctBy keyFn xs =
     map (nth xs) (filter (\<lambda>i. \<forall>j<i. keyFn (xs ! j) \<noteq> keyFn (xs ! i)) [0..<length xs])"
  by (simp add: distinctBy_def distinctSeen_indices)

lemma same_triple_same_key:
  "getLabel a = getLabel b \<Longrightarrow> getGroupLabel a = getGroupLabel b \<Longrightarrow>
   getCommandId a = getCommandId b \<Longrightarrow> duplicateKey a = duplicateKey b"
  by (simp add: duplicateKey_def)

text \<open>
  C4, where the code departs from it. The key of the duplicate removal is the
  concatenation of label, group label and command id. The candidates (label "a",
  command "undefinedb") and (label "aundefined", command "b") differ in label and
  command id and have the same key, and \<open>doGetResults\<close> returns only the first.
\<close>

theorem different_triples_with_equal_keys_collapse:
  "duplicateKey (candidate ''undefinedb'' ''a'') = duplicateKey (candidate ''b'' ''aundefined'')
   \<and> map getCommandId
     (snd (doGetResults
        (paletteOf [command ''undefinedb'' ''a'', command ''b'' ''aundefined''])
        [] False (historyOf 50 [] 1)))
     = [''undefinedb'']"
  by code_simp

section \<open>Label clashes\<close>

lemma handleLabelClashes_length: "length (handleLabelClashes S es) = length es"
  by (induction es arbitrary: S) auto

lemma handleLabelClashes_nth:
  "i < length es \<Longrightarrow>
   handleLabelClashes S es ! i =
     (if commandLabel (es ! i) \<in> S \<or> (\<exists>j<i. commandLabel (es ! j) = commandLabel (es ! i))
      then setDescription (getCommandId (es ! i)) (es ! i) else es ! i)"
proof (induction es arbitrary: S i)
  case Nil
  then show ?case by simp
next
  case (Cons e es)
  show ?case
  proof (cases i)
    case 0
    then show ?thesis by simp
  next
    case (Suc k)
    with Cons.prems have k: "k < length es" by simp
    have ex: "(\<exists>j<Suc k. commandLabel ((e # es) ! j) = c) \<longleftrightarrow>
              (commandLabel e = c \<or> (\<exists>j<k. commandLabel (es ! j) = c))" for c
      by (auto simp: less_Suc_eq_0_disj)
    show ?thesis
      using Cons.IH [OF k] Suc by (auto simp: ex)
  qed
qed

text \<open>
  The entries the pipeline hands to the clash handling are fresh from their
  constructors: no group label and no description yet.
\<close>

lemma BaseCommandEntry_fresh:
  "getGroupLabel (BaseCommandEntry cls cid kb lbl als hl) = None
   \<and> getDescription (BaseCommandEntry cls cid kb lbl als hl) = None"
  by (simp add: BaseCommandEntry_def getGroupLabel_def getDescription_def Let_def)

lemma editorActionsToEntries_fresh:
  "e \<in> set (editorActionsToEntries sv actions q) \<Longrightarrow>
   getGroupLabel e = None \<and> getDescription e = None"
proof (induction actions)
  case Nil
  then show ?case by simp
next
  case (Cons a actions)
  then show ?case
    by (auto simp: Let_def BaseCommandEntry_fresh split: if_splits)
qed

lemma menuItemActionToEntry_fresh:
  "menuItemActionToEntry sv a q = Some e \<Longrightarrow>
   getGroupLabel e = None \<and> getDescription e = None"
  by (auto simp: menuItemActionToEntry_def Let_def BaseCommandEntry_fresh split: if_splits)

lemma menuItemActionsToEntries_fresh:
  "e \<in> set (menuItemActionsToEntries sv actions q) \<Longrightarrow>
   getGroupLabel e = None \<and> getDescription e = None"
  by (auto simp: menuItemActionsToEntries_def List.map_filter_def
        dest: menuItemActionToEntry_fresh)

lemma pipeline_entries_fresh:
  "\<forall>e\<in>set (distinctBy duplicateKey
       (editorActionsToEntries sv editorActions q @ menuItemActionsToEntries sv menuActions q)).
     getGroupLabel e = None \<and> getDescription e = None"
proof
  fix e
  assume "e \<in> set (distinctBy duplicateKey
       (editorActionsToEntries sv editorActions q @ menuItemActionsToEntries sv menuActions q))"
  then have "e \<in> set (editorActionsToEntries sv editorActions q
                       @ menuItemActionsToEntries sv menuActions q)"
    unfolding distinctBy_def by (rule subsetD [OF distinctSeen_subset])
  then have "e \<in> set (editorActionsToEntries sv editorActions q)
           \<or> e \<in> set (menuItemActionsToEntries sv menuActions q)"
    by simp
  then show "getGroupLabel e = None \<and> getDescription e = None"
    using editorActionsToEntries_fresh menuItemActionsToEntries_fresh by blast
qed

text \<open>
  C2, as the code has it. Among entries fresh from their constructors, the clash handling
  sets the description of an entry to its own command id exactly when an earlier entry
  has the same (label, group label); the first-seen member of such a group, like an
  entry whose (label, group label) is unique, keeps its description unset. Nothing else
  of an entry changes, and no entry is added, dropped or moved.
\<close>

theorem label_clash_describes_later_members:
  assumes fresh: "\<forall>e\<in>set es. getGroupLabel e = None \<and> getDescription e = None"
    and i: "i < length es"
  shows "length (handleLabelClashes {} es) = length es \<and>
     handleLabelClashes {} es ! i =
       (es ! i)\<lparr>description :=
          (if \<exists>j<i. (getLabel (es ! j), getGroupLabel (es ! j))
                   = (getLabel (es ! i), getGroupLabel (es ! i))
           then Some (getCommandId (es ! i)) else None)\<rparr>"
proof -
  have g: "getGroupLabel (es ! k) = None" if "k < length es" for k
    using fresh that by simp
  have d: "description (es ! i) = None"
    using fresh i by (simp add: getDescription_def)
  have "(\<exists>j<i. commandLabel (es ! j) = commandLabel (es ! i)) \<longleftrightarrow>
        (\<exists>j<i. (getLabel (es ! j), getGroupLabel (es ! j))
              = (getLabel (es ! i), getGroupLabel (es ! i)))"
    using g i by (auto simp: commandLabel_def)
  then show ?thesis
    using handleLabelClashes_nth [OF i, of "{}"] d
    by (simp add: handleLabelClashes_length setDescription_def)
qed

theorem label_clash_describes_later_members_witness:
  "getDescription (handleLabelClashes {}
      [candidate ''file.save'' ''Save'', candidate ''custom.save'' ''Save'',
       candidate ''file.open'' ''Open''] ! 1) = Some ''custom.save''"
proof -
  let ?es = "[candidate ''file.save'' ''Save'', candidate ''custom.save'' ''Save'',
       candidate ''file.open'' ''Open'']"
  have fresh: "\<forall>e\<in>set ?es. getGroupLabel e = None \<and> getDescription e = None"
    by code_simp
  have l: "(1::nat) < length ?es"
    by simp
  have ev: "getLabel (candidate c t) = t" "getGroupLabel (candidate c t) = None"
    "getCommandId (candidate c t) = c" for c t
    by (simp_all add: candidate_def BaseCommandEntry_def getLabel_def getGroupLabel_def
        getCommandId_def)
  have c: "\<exists>j<1. (getLabel (?es ! j), getGroupLabel (?es ! j))
               = (getLabel (?es ! 1), getGroupLabel (?es ! 1))"
    by (rule exI [of _ 0]) (simp add: ev)
  note t = label_clash_describes_later_members [OF fresh l, THEN conjunct2]
  have "handleLabelClashes {} ?es ! 1 = (?es ! 1)\<lparr>description := Some (getCommandId (?es ! 1))\<rparr>"
    unfolding t using c by (simp only: if_True)
  then show ?thesis
    by (simp add: ev getDescription_def)
qed

text \<open>
  The spec's example run through \<open>doGetResults\<close>: two commands titled Save. Both are
  listed; the first one has no description.
\<close>

theorem first_seen_member_not_described:
  "map getCommandId
     (snd (doGetResults
        (paletteOf [command ''file.save'' ''Save'', command ''custom.save'' ''Save''])
        [] False (historyOf 50 [] 1)))
   = [''file.save'', ''custom.save'']
   \<and> map getDescription
     (snd (doGetResults
        (paletteOf [command ''file.save'' ''Save'', command ''custom.save'' ''Save''])
        [] False (historyOf 50 [] 1)))
   = [None, Some ''custom.save'']"
  by code_simp

section \<open>Ranking\<close>

text \<open>
  Read by its negative answers, the comparator of the ranking is a strict weak order on
  any candidates whenever \<open>localeCompare\<close> is one on the sort labels of those without a
  counter: candidates with a counter come first, by descending counter, then the others
  by label. So the ranking returns a sorted permutation in which tied candidates keep
  the order they had after the clash handling.
\<close>

lemma compareMRU_strict:
  "compareMRU lc st a b < 0 \<longleftrightarrow>
     (hasCounter st a \<and> hasCounter st b
        \<and> the (peek st (getCommandId b)) < the (peek st (getCommandId a)))
   \<or> (hasCounter st a \<and> \<not> hasCounter st b)
   \<or> (\<not> hasCounter st a \<and> \<not> hasCounter st b \<and> lc (getSortLabel a) (getSortLabel b) < 0)"
  by (simp add: compareMRU_def hasCounter_def Let_def)

lemma compareMRU_strictWeakOrder:
  assumes lc: "strictWeakOrderOn lc (getSortLabel ` {e \<in> A. \<not> hasCounter st e})"
  shows "strictWeakOrderOn (compareMRU lc st) A"
  unfolding strictWeakOrderOn_def
proof (intro conjI ballI impI)
  fix a b assume a: "a \<in> A" and b: "b \<in> A" and ab: "compareMRU lc st a b < 0"
  show "\<not> compareMRU lc st b a < 0"
  proof (cases "hasCounter st a \<or> hasCounter st b")
    case True
    with ab show ?thesis by (auto simp: compareMRU_strict)
  next
    case False
    then have "getSortLabel a \<in> getSortLabel ` {e \<in> A. \<not> hasCounter st e}"
      "getSortLabel b \<in> getSortLabel ` {e \<in> A. \<not> hasCounter st e}"
      using a b by simp_all
    from swo_asym [OF lc this] ab False show ?thesis
      by (simp add: compareMRU_strict)
  qed
next
  fix a b c assume a: "a \<in> A" and b: "b \<in> A" and c: "c \<in> A"
    and ab: "compareMRU lc st a b < 0"
  show "compareMRU lc st a c < 0 \<or> compareMRU lc st c b < 0"
  proof (cases "hasCounter st a \<or> hasCounter st b \<or> hasCounter st c")
    case True
    with ab show ?thesis by (auto simp: compareMRU_strict)
  next
    case False
    then have "getSortLabel a \<in> getSortLabel ` {e \<in> A. \<not> hasCounter st e}"
      "getSortLabel b \<in> getSortLabel ` {e \<in> A. \<not> hasCounter st e}"
      "getSortLabel c \<in> getSortLabel ` {e \<in> A. \<not> hasCounter st e}"
      using a b c by simp_all
    from swo_negtrans [OF lc this] ab False show ?thesis
      by (simp add: compareMRU_strict)
  qed
qed

lemma ranking_sorted_and_stable:
  assumes "strictWeakOrderOn lc (getSortLabel ` {e \<in> set es. \<not> hasCounter st e})"
  shows "mset (arraySort (compareMRU lc st) es) = mset es
       \<and> sorted_wrt (\<lambda>a b. \<not> compareMRU lc st b a < 0) (arraySort (compareMRU lc st) es)
       \<and> (\<forall>k\<in>set es. filter (tied (compareMRU lc st) k) (arraySort (compareMRU lc st) es)
                       = filter (tied (compareMRU lc st) k) es)"
  by (rule arraySort_sorted_stable [OF compareMRU_strictWeakOrder [OF assms]])

lemma recorded_counter_positive:
  assumes "historyInvariant st" "peek st cid = Some v"
  shows "0 < v"
proof (cases "cache st")
  case None
  with assms(2) show ?thesis by (simp add: peek_def)
next
  case (Some c)
  with assms(2) have "map_of (items c) cid = Some v"
    by (simp add: peek_def cachePeek_def)
  then have "(cid, v) \<in> set (items c)" by (rule map_of_SomeD)
  moreover have "list_all (\<lambda>e. 0 < snd e \<and> snd e < counter st) (items c)"
    using assms(1) Some by (simp add: historyInvariant_def)
  ultimately show ?thesis by (auto simp: list_all_iff)
qed

lemma example_ranking:
  assumes swo: "strictWeakOrderOn lc {''alpha'', ''zeta''}" and lc: "lc ''alpha'' ''zeta'' < 0"
    and xs: "mset xs = mset [candidate ''A'' ''a'', candidate ''B'' ''b'', candidate ''C'' ''zeta'',
                candidate ''D'' ''alpha'']"
  shows "arraySort (compareMRU lc (historyOf 50 [(''A'', 5), (''B'', 9)] 10)) xs
       = [candidate ''B'' ''b'', candidate ''A'' ''a'', candidate ''D'' ''alpha'',
          candidate ''C'' ''zeta'']"
proof -
  let ?st = "historyOf 50 [(''A'', 5), (''B'', 9)] 10"
  let ?A = "candidate ''A'' ''a''" and ?B = "candidate ''B'' ''b''"
  let ?C = "candidate ''C'' ''zeta''" and ?D = "candidate ''D'' ''alpha''"
  have set: "set xs = {?A, ?B, ?C, ?D}"
    using mset_eq_setD [OF xs] by simp
  have h: "hasCounter ?st ?A" "hasCounter ?st ?B" "\<not> hasCounter ?st ?C" "\<not> hasCounter ?st ?D"
    by code_simp+
  have l: "getSortLabel ?C = ''zeta''" "getSortLabel ?D = ''alpha''"
    by code_simp+
  have "getSortLabel ` {e \<in> set xs. \<not> hasCounter ?st e} \<subseteq> {''alpha'', ''zeta''}"
    using h l by (auto simp: set)
  then have o: "strictWeakOrderOn (compareMRU lc ?st) (set xs)"
    by (intro compareMRU_strictWeakOrder swo_subset [OF swo])
  have p: "peek ?st (getCommandId ?A) = Some 5" "peek ?st (getCommandId ?B) = Some 9"
    by code_simp+
  have s: "sorted_wrt (\<lambda>a b. compareMRU lc ?st a b < 0) [?B, ?A, ?D, ?C]"
    using h l p lc by (simp add: compareMRU_strict)
  have m: "mset (arraySort (compareMRU lc ?st) xs) = mset [?B, ?A, ?D, ?C]"
    using arraySort_sorted_stable [OF o] xs by simp
  show ?thesis
    by (rule sorted_permutation_unique [OF o _ s _ m])
      (use set arraySort_sorted_stable [OF o] in auto)
qed

text \<open>
  C5. Over a history that satisfies its invariant, the comparator puts the entry with the
  higher counter first when both commands have one, the entry with a counter first when
  only one has, and compares the lowercase labels with \<open>localeCompare\<close> when neither
  has; the sort label of an entry is its label in lowercase. With A at counter 5, B at
  counter 9, C "zeta" and D "alpha" without counters, and a \<open>localeCompare\<close> that
  puts "alpha" before "zeta", the ranking of the four candidates, in whatever order
  they come, is B, A, D, C.
\<close>

theorem ranking_rules_and_example:
  assumes inv: "historyInvariant st"
    and swo: "strictWeakOrderOn lc {''alpha'', ''zeta''}" and lc: "lc ''alpha'' ''zeta'' < 0"
    and xs: "mset xs = mset [candidate ''A'' ''a'', candidate ''B'' ''b'',
                candidate ''C'' ''zeta'', candidate ''D'' ''alpha'']"
  shows "(peek st (getCommandId a) = Some x \<and> peek st (getCommandId b) = Some y \<and> y < x
            \<longrightarrow> compareMRU lc st a b < 0 \<and> 0 < compareMRU lc st b a)
       \<and> (peek st (getCommandId a) = Some x \<and> peek st (getCommandId b) = None
            \<longrightarrow> compareMRU lc st a b < 0 \<and> 0 < compareMRU lc st b a)
       \<and> (peek st (getCommandId a) = None \<and> peek st (getCommandId b) = None
            \<longrightarrow> compareMRU lc st a b = lc (getSortLabel a) (getSortLabel b))
       \<and> getSortLabel (BaseCommandEntry cls cid kb lbl als hl) = toLowerCase lbl
       \<and> map getCommandId
            (arraySort (compareMRU lc (historyOf 50 [(''A'', 5), (''B'', 9)] 10)) xs)
          = [''B'', ''A'', ''D'', ''C'']"
proof -
  have t: "truthy (Some v)" if "peek st cid = Some v" for cid v
    using recorded_counter_positive [OF inv that] by (simp add: truthy_def)
  have f: "\<not> truthy None"
    by (simp add: truthy_def)
  have r1: "peek st (getCommandId a) = Some x \<and> peek st (getCommandId b) = Some y \<and> y < x
            \<longrightarrow> compareMRU lc st a b < 0 \<and> 0 < compareMRU lc st b a"
  proof (intro impI, elim conjE)
    assume p: "peek st (getCommandId a) = Some x" "peek st (getCommandId b) = Some y" "y < x"
    show "compareMRU lc st a b < 0 \<and> 0 < compareMRU lc st b a"
      using p t [OF p(1)] t [OF p(2)] by (simp add: compareMRU_def Let_def)
  qed
  have r2: "peek st (getCommandId a) = Some x \<and> peek st (getCommandId b) = None
            \<longrightarrow> compareMRU lc st a b < 0 \<and> 0 < compareMRU lc st b a"
  proof (intro impI, elim conjE)
    assume p: "peek st (getCommandId a) = Some x" "peek st (getCommandId b) = None"
    show "compareMRU lc st a b < 0 \<and> 0 < compareMRU lc st b a"
      using p t [OF p(1)] f by (simp add: compareMRU_def Let_def)
  qed
  have r3: "peek st (getCommandId a) = None \<and> peek st (getCommandId b) = None
            \<longrightarrow> compareMRU lc st a b = lc (getSortLabel a) (getSortLabel b)"
  proof (intro impI, elim conjE)
    assume p: "peek st (getCommandId a) = None" "peek st (getCommandId b) = None"
    show "compareMRU lc st a b = lc (getSortLabel a) (getSortLabel b)"
      using p f by (simp add: compareMRU_def Let_def)
  qed
  have r4: "getSortLabel (BaseCommandEntry cls cid kb lbl als hl) = toLowerCase lbl"
    by (simp add: getSortLabel_def BaseCommandEntry_def Let_def)
  have g: "getCommandId (candidate c l) = c" for c l
    by (simp add: candidate_def BaseCommandEntry_def getCommandId_def)
  have ex: "map getCommandId
            (arraySort (compareMRU lc (historyOf 50 [(''A'', 5), (''B'', 9)] 10)) xs)
          = [''B'', ''A'', ''D'', ''C'']"
    by (simp add: example_ranking [OF swo lc xs] g)
  show ?thesis using r1 r2 r3 r4 ex by blast
qed

theorem ranking_rules_and_example_witness:
  "compareMRU compareCodeUnits (historyOf 50 [(''A'', 5), (''B'', 9)] 10)
      (candidate ''B'' ''b'') (candidate ''A'' ''a'') < 0
   \<and> map getCommandId
        (arraySort (compareMRU compareCodeUnits (historyOf 50 [(''A'', 5), (''B'', 9)] 10))
           [candidate ''D'' ''alpha'', candidate ''C'' ''zeta'', candidate ''B'' ''b'',
            candidate ''A'' ''a''])
      = [''B'', ''A'', ''D'', ''C'']
   \<and> map getCommandId
     (snd (doGetResults
        (paletteOf [command ''A'' ''a'', command ''B'' ''b'', command ''C'' ''zeta'',
                    command ''D'' ''alpha''])
        [] False (historyOf 50 [(''A'', 5), (''B'', 9)] 10)))
     = [''B'', ''A'', ''D'', ''C'']"
proof -
  let ?st = "historyOf 50 [(''A'', 5), (''B'', 9)] 10"
  let ?xs = "[candidate ''D'' ''alpha'', candidate ''C'' ''zeta'', candidate ''B'' ''b'',
              candidate ''A'' ''a'']"
  have inv: "historyInvariant ?st" by code_simp
  have swo: "strictWeakOrderOn compareCodeUnits {''alpha'', ''zeta''}"
    by (simp add: strictWeakOrderOn_def)
  have lc: "compareCodeUnits ''alpha'' ''zeta'' < 0" by simp
  have xs: "mset ?xs = mset [candidate ''A'' ''a'', candidate ''B'' ''b'',
                candidate ''C'' ''zeta'', candidate ''D'' ''alpha'']"
    by simp
  have p: "peek ?st (getCommandId (candidate ''B'' ''b'')) = Some 9
         \<and> peek ?st (getCommandId (candidate ''A'' ''a'')) = Some 5 \<and> (5::int) < 9"
    by code_simp
  note r = ranking_rules_and_example [where lc = compareCodeUnits and st = ?st
      and a = "candidate ''B'' ''b''" and x = 9 and b = "candidate ''A'' ''a''" and y = 5
      and xs = ?xs, OF inv swo lc xs]
  have "compareMRU compareCodeUnits ?st (candidate ''B'' ''b'') (candidate ''A'' ''a'') < 0"
    using r p by blast
  moreover have "map getCommandId (arraySort (compareMRU compareCodeUnits ?st) ?xs)
      = [''B'', ''A'', ''D'', ''C'']"
    using r by blast
  moreover have "map getCommandId
     (snd (doGetResults
        (paletteOf [command ''A'' ''a'', command ''B'' ''b'', command ''C'' ''zeta'',
                    command ''D'' ''alpha''])
        [] False ?st))
     = [''B'', ''A'', ''D'', ''C'']"
    by code_simp
  ultimately show ?thesis by simp
qed

text \<open>
  C1, where the code departs from it. As a three-way comparator the function is not
  antisymmetric. An editor action and a menu command with the same command id and
  different labels both survive the duplicate removal; when the command has a counter
  the comparator answers 1 for the pair in either order, so it ranks each of the two
  after the other.
\<close>

theorem comparator_ranks_shared_command_both_ways:
  "compareMRU lc (historyOf 50 [(''x'', 5)] 6) (candidate ''x'' ''Alpha'') (candidate ''x'' ''View: Alpha'') = 1
   \<and> compareMRU lc (historyOf 50 [(''x'', 5)] 6) (candidate ''x'' ''View: Alpha'') (candidate ''x'' ''Alpha'') = 1
   \<and> duplicateKey (candidate ''x'' ''Alpha'') \<noteq> duplicateKey (candidate ''x'' ''View: Alpha'')
   \<and> map getLabel (snd (doGetResults
        ((paletteOf [command ''x'' ''View: Alpha''])
           \<lparr>getSupportedActions := Some [\<lparr>editorActionId = ''x'', editorActionLabel = ''Alpha'',
                                          editorActionAlias = ''Alpha''\<rparr>]\<rparr>)
        [] False (historyOf 50 [(''x'', 5)] 6)))
     = [''Alpha'', ''View: Alpha'']"
  by code_simp

section \<open>The group marker\<close>

lemma markOtherCommands_length: "length (markOtherCommands st es) = length es"
  by (induction es) auto

lemma markOtherCommands_nth:
  "k < length es \<Longrightarrow>
   markOtherCommands st es ! k =
     (if \<not> hasCounter st (es ! k) \<and> (\<forall>j<k. hasCounter st (es ! j))
      then setGroupLabel ''other commands'' (setShowBorder True (es ! k)) else es ! k)"
proof (induction es arbitrary: k)
  case Nil
  then show ?case by simp
next
  case (Cons e es)
  show ?case
  proof (cases k)
    case 0
    then show ?thesis by (simp add: hasCounter_def)
  next
    case (Suc n)
    with Cons.prems have n: "n < length es" by simp
    have al: "(\<forall>j<Suc n. hasCounter st ((e # es) ! j)) \<longleftrightarrow>
              (hasCounter st e \<and> (\<forall>j<n. hasCounter st (es ! j)))"
      by (auto simp: less_Suc_eq_0_disj)
    show ?thesis
      using Cons.IH [OF n] Suc
      by (simp add: al) (auto simp: hasCounter_def)
  qed
qed

text \<open>
  C3, as the code has it. When the first entry has a recorded counter, the first entry
  alone is labelled "recently used"; the entries after it that have a counter are left
  as they are; the first entry without a counter is labelled "other commands" and gets
  the border; every entry after that one is left as it is. When the first entry has no
  counter (so when no entry of a ranked list has one), no entry is changed.
\<close>

theorem group_marker_labels_first_of_each_group:
  assumes i: "i < length es"
  shows "length (introduceGroupMarker st es) = length es \<and>
     introduceGroupMarker st es ! i =
       (if \<not> hasCounter st (es ! 0) then es ! i
        else if i = 0 then setGroupLabel ''recently used'' (es ! 0)
        else if \<not> hasCounter st (es ! i) \<and> (\<forall>j. 0 < j \<and> j < i \<longrightarrow> hasCounter st (es ! j))
        then setGroupLabel ''other commands'' (setShowBorder True (es ! i))
        else es ! i)"
proof (cases es)
  case Nil
  with i show ?thesis by simp
next
  case (Cons f rest)
  show ?thesis
  proof (cases "hasCounter st f")
    case False
    then show ?thesis
      using Cons by (simp add: introduceGroupMarker_def hasCounter_def)
  next
    case True
    show ?thesis
    proof (cases i)
      case 0
      then show ?thesis
        using Cons True
        by (simp add: introduceGroupMarker_def hasCounter_def markOtherCommands_length)
    next
      case (Suc k)
      with i Cons have k: "k < length rest" by simp
      have al: "(\<forall>j<k. hasCounter st (rest ! j)) =
                (\<forall>j. 0 < j \<and> j < i \<longrightarrow> hasCounter st (es ! j))"
      proof
        assume a: "\<forall>j. 0 < j \<and> j < i \<longrightarrow> hasCounter st (es ! j)"
        show "\<forall>j<k. hasCounter st (rest ! j)"
        proof (intro allI impI)
          fix j assume "j < k"
          then have "0 < Suc j \<and> Suc j < i" using Suc by simp
          with a have "hasCounter st (es ! Suc j)" by blast
          then show "hasCounter st (rest ! j)" using Cons by simp
        qed
      next
        assume a: "\<forall>j<k. hasCounter st (rest ! j)"
        show "\<forall>j. 0 < j \<and> j < i \<longrightarrow> hasCounter st (es ! j)"
        proof (intro allI impI)
          fix j assume j: "0 < j \<and> j < i"
          then obtain m where m: "j = Suc m" by (cases j) auto
          with j a Suc Cons show "hasCounter st (es ! j)" by simp
        qed
      qed
      have e: "rest ! k = es ! i" using Cons Suc by simp
      have tr: "truthy (peek st (getCommandId f))"
        using True by (simp add: hasCounter_def)
      have len: "length (introduceGroupMarker st es) = length es"
        using Cons tr by (simp add: introduceGroupMarker_def markOtherCommands_length)
      have "introduceGroupMarker st es ! i = markOtherCommands st rest ! k"
        using Cons Suc tr by (simp add: introduceGroupMarker_def)
      also have "\<dots> = (if \<not> hasCounter st (rest ! k) \<and> (\<forall>j<k. hasCounter st (rest ! j))
          then setGroupLabel ''other commands'' (setShowBorder True (rest ! k)) else rest ! k)"
        by (rule markOtherCommands_nth [OF k])
      also have "\<dots> = (if \<not> hasCounter st (es ! i)
                              \<and> (\<forall>j. 0 < j \<and> j < i \<longrightarrow> hasCounter st (es ! j))
          then setGroupLabel ''other commands'' (setShowBorder True (es ! i)) else es ! i)"
        by (simp only: al e)
      finally have val: "introduceGroupMarker st es ! i =
         (if \<not> hasCounter st (es ! i) \<and> (\<forall>j. 0 < j \<and> j < i \<longrightarrow> hasCounter st (es ! j))
          then setGroupLabel ''other commands'' (setShowBorder True (es ! i)) else es ! i)" .
      have h0: "hasCounter st (es ! 0)" using True Cons by simp
      have i0: "i \<noteq> 0" using Suc by simp
      show ?thesis using val len h0 i0 by simp
    qed
  qed
qed

theorem group_marker_labels_first_of_each_group_witness:
  "introduceGroupMarker (historyOf 50 [(''A'', 5), (''B'', 9)] 10)
     [candidate ''B'' ''b'', candidate ''A'' ''a'', candidate ''C'' ''c'', candidate ''D'' ''d''] ! 2
   = setGroupLabel ''other commands'' (setShowBorder True (candidate ''C'' ''c''))"
proof -
  let ?st = "historyOf 50 [(''A'', 5), (''B'', 9)] 10"
  let ?es = "[candidate ''B'' ''b'', candidate ''A'' ''a'', candidate ''C'' ''c'',
              candidate ''D'' ''d'']"
  have l: "(2::nat) < length ?es" by simp
  have h: "hasCounter ?st (?es ! 0)" "hasCounter ?st (?es ! 1)" "\<not> hasCounter ?st (?es ! 2)"
    by code_simp+
  have al: "\<forall>j. 0 < j \<and> j < (2::nat) \<longrightarrow> hasCounter ?st (?es ! j)"
  proof (intro allI impI)
    fix j :: nat assume "0 < j \<and> j < 2"
    then have "j = 1" by simp
    with h(2) show "hasCounter ?st (?es ! j)" by simp
  qed
  show ?thesis
    using group_marker_labels_first_of_each_group [OF l, of ?st] h al by simp
qed

text \<open>
  The ranked list B (counter 9), A (counter 5), C (no counter): A has a counter and
  follows the first entry, and it gets no group label.
\<close>

theorem later_recent_entries_not_labelled:
  "map getCommandId
     (introduceGroupMarker (historyOf 50 [(''A'', 5), (''B'', 9)] 10)
        [candidate ''B'' ''b'', candidate ''A'' ''a'', candidate ''C'' ''c''])
   = [''B'', ''A'', ''C'']
   \<and> map getGroupLabel
     (introduceGroupMarker (historyOf 50 [(''A'', 5), (''B'', 9)] 10)
        [candidate ''B'' ''b'', candidate ''A'' ''a'', candidate ''C'' ''c''])
   = [Some ''recently used'', None, Some ''other commands'']"
  by code_simp

section \<open>The history stays within its capacity\<close>

lemma touch_length_le: "length (touch k v es) \<le> Suc (length es)"
  by (simp add: touch_def le_SucI)

lemma checkTrim_length: "length (items (checkTrim c)) \<le> limit c"
  by (simp add: checkTrim_def)

lemma cacheSet_limit: "limit (cacheSet k v c) = limit c"
  by (simp add: cacheSet_def checkTrim_def)

lemma cacheSet_length: "length (items (cacheSet k v c)) \<le> limit c"
  using checkTrim_length [of "c\<lparr>items := touch k v (items c)\<rparr>"] by (simp add: cacheSet_def)

lemma cacheSet_items:
  "items (cacheSet k v c) = drop (length (touch k v (items c)) - limit c) (touch k v (items c))"
  by (simp add: cacheSet_def checkTrim_def)

lemma trimmed_append: "trimmed c @ items (checkTrim c) = items c"
  by (simp add: trimmed_def checkTrim_def)

lemma touch_distinct: "distinct (map fst es) \<Longrightarrow> distinct (map fst (touch k v es))"
  by (induction es) (auto simp: touch_def)

lemma sorted_wrt_filter_map:
  "sorted_wrt (<) (map snd es) \<Longrightarrow> sorted_wrt (<) (map snd (filter P es))"
  by (induction es) auto

lemma touch_sorted:
  assumes "sorted_wrt (<) (map snd es)" "list_all (\<lambda>e. snd e < v) es"
  shows "sorted_wrt (<) (map (snd :: string \<times> int \<Rightarrow> int) (touch k v es))"
  using assms sorted_wrt_filter_map [of es "\<lambda>e. fst e \<noteq> k"]
  by (auto simp: touch_def sorted_wrt_append list_all_iff)

lemma touch_bounds:
  assumes "list_all (\<lambda>e. 0 < snd e \<and> snd e < v) es" "0 < v"
  shows "list_all (\<lambda>e. 0 < snd e \<and> snd e < v + 1) (touch k v es)"
  using assms by (auto simp: touch_def list_all_iff)

lemma drop_distinct_map: "distinct (map f xs) \<Longrightarrow> distinct (map f (drop n xs))"
  by (simp add: drop_map [symmetric] distinct_drop del: drop_map)

lemma drop_sorted_map: "sorted_wrt (<) (map f xs) \<Longrightarrow> sorted_wrt (<) (map f (drop n xs))"
  by (simp add: drop_map [symmetric] sorted_wrt_drop del: drop_map)

lemma list_all_drop: "list_all P xs \<Longrightarrow> list_all P (drop n xs)"
  by (auto simp: list_all_iff dest: in_set_dropD)

lemma push_cache:
  "cache st = Some c \<Longrightarrow>
   cache (push cid st) = Some (cacheSet cid (counter st) c) \<and> counter (push cid st) = counter st + 1"
  by (simp add: push_def saveState_def)

lemma push_invariant:
  assumes "historyInvariant st"
  shows "historyInvariant (push cid st)"
proof (cases "cache st")
  case None
  then show ?thesis using assms by (simp add: push_def)
next
  case (Some c)
  from assms Some have inv: "distinct (map fst (items c))" "sorted_wrt (<) (map snd (items c))"
    "list_all (\<lambda>e. 0 < snd e \<and> snd e < counter st) (items c)" "0 < counter st"
    by (simp_all add: historyInvariant_def)
  let ?t = "touch cid (counter st) (items c)"
  let ?n = "length ?t - limit c"
  have lt: "list_all (\<lambda>e. snd e < counter st) (items c)"
    using inv(3) by (auto simp: list_all_iff)
  have d: "distinct (map fst (drop ?n ?t))"
    by (rule drop_distinct_map [OF touch_distinct [OF inv(1)]])
  have s: "sorted_wrt (<) (map snd (drop ?n ?t))"
    by (rule drop_sorted_map [OF touch_sorted [OF inv(2) lt]])
  have b: "list_all (\<lambda>e. 0 < snd e \<and> snd e < counter st + 1) (drop ?n ?t)"
    by (rule list_all_drop [OF touch_bounds [OF inv(3) inv(4)]])
  have l: "length (items (cacheSet cid (counter st) c)) \<le> limit (cacheSet cid (counter st) c)"
    by (simp add: cacheSet_length cacheSet_limit)
  show ?thesis
    using push_cache [OF Some, of cid] d s b l inv(4)
    by (simp add: historyInvariant_def cacheSet_items)
qed

lemma pushes_invariant: "historyInvariant st \<Longrightarrow> historyInvariant (fold push ids st)"
  by (induction ids arbitrary: st) (simp_all add: push_invariant)

lemma pushes_limit:
  "cache st = Some c \<Longrightarrow> \<exists>c'. cache (fold push ids st) = Some c' \<and> limit c' = limit c"
proof (induction ids arbitrary: st c)
  case Nil
  then show ?case by simp
next
  case (Cons cid ids)
  have "cache (push cid st) = Some (cacheSet cid (counter st) c)"
    using push_cache [OF Cons.prems] by simp
  from Cons.IH [OF this] show ?case by (simp add: cacheSet_limit)
qed

lemma evicted_append:
  "cache st = Some c \<Longrightarrow>
   evictedByPush cid st @ items (the (cache (push cid st))) = presentAtPush cid st"
  using trimmed_append [of "c\<lparr>items := touch cid (counter st) (items c)\<rparr>"]
  by (simp add: evictedByPush_def presentAtPush_def push_cache cacheSet_def)

lemma take_one_least:
  assumes "sorted_wrt (<) (map snd xs)" "n \<le> 1" "e \<in> set (take n xs)" "e' \<in> set xs"
  shows "(snd e :: int) \<le> snd e'"
proof (cases xs)
  case Nil
  with assms show ?thesis by simp
next
  case (Cons x xs')
  show ?thesis
  proof (cases n)
    case 0
    with assms show ?thesis by simp
  next
    case (Suc m)
    with assms(2) have "n = 1" by simp
    with assms(3) Cons have "e = x" by simp
    with assms(1,4) Cons show ?thesis by auto
  qed
qed

lemma evicted_least:
  assumes inv: "historyInvariant st"
    and e: "e \<in> set (evictedByPush cid st)" and e': "e' \<in> set (presentAtPush cid st)"
  shows "length (evictedByPush cid st) \<le> 1 \<and> snd e \<le> snd e'"
proof (cases "cache st")
  case None
  with e show ?thesis by (simp add: evictedByPush_def)
next
  case (Some c)
  from inv Some have i: "length (items c) \<le> limit c" "sorted_wrt (<) (map snd (items c))"
    "list_all (\<lambda>e. 0 < snd e \<and> snd e < counter st) (items c)"
    by (simp_all add: historyInvariant_def)
  let ?t = "touch cid (counter st) (items c)"
  let ?n = "length ?t - limit c"
  have lt: "list_all (\<lambda>e. snd e < counter st) (items c)"
    using i(3) by (auto simp: list_all_iff)
  have s: "sorted_wrt (<) (map snd ?t)" by (rule touch_sorted [OF i(2) lt])
  have n: "?n \<le> 1" using touch_length_le [of cid "counter st" "items c"] i(1) by simp
  have ev: "evictedByPush cid st = take ?n ?t"
    using Some by (simp add: evictedByPush_def trimmed_def)
  have pr: "presentAtPush cid st = ?t"
    using Some by (simp add: presentAtPush_def)
  have "snd e \<le> snd e'"
    using take_one_least [OF s n] e e' ev pr by simp
  moreover have "length (evictedByPush cid st) \<le> 1"
    using n ev by simp
  ultimately show ?thesis by simp
qed

lemma filter_all_of_length:
  assumes "length xs \<le> length (filter P xs)"
  shows "filter P xs = xs"
proof -
  have "length (filter P xs) + length (filter (\<lambda>x. \<not> P x) xs) = length xs"
    by (rule sum_length_filter_compl)
  with assms have "length (filter (\<lambda>x. \<not> P x) xs) = 0" by arith
  then have "filter (\<lambda>x. \<not> P x) xs = []" by (simp only: length_0_conv)
  then have "\<forall>x\<in>set xs. P x" by (simp add: filter_empty_conv)
  then show ?thesis by simp
qed

lemma evicting_push_keeps_entries_present:
  assumes inv: "historyInvariant st" and c: "cache st = Some c"
    and ev: "evictedByPush cid st \<noteq> []"
  shows "presentAtPush cid st = items c @ [(cid, counter st)]"
proof -
  let ?t = "touch cid (counter st) (items c)"
  have "evictedByPush cid st = take (length ?t - limit c) ?t"
    using c by (simp add: evictedByPush_def trimmed_def)
  with ev have "limit c < length ?t" by (cases "length ?t - limit c") auto
  moreover have "length (items c) \<le> limit c"
    using inv c by (simp add: historyInvariant_def)
  ultimately have "length (items c) \<le> length (filter (\<lambda>e. fst e \<noteq> cid) (items c))"
    by (simp add: touch_def)
  then have "filter (\<lambda>e. fst e \<noteq> cid) (items c) = items c"
    by (rule filter_all_of_length)
  then show ?thesis
    using c by (simp add: presentAtPush_def touch_def)
qed

text \<open>
  C6. From a state that satisfies the invariant of the history (as every state does that
  the program reaches from a fresh profile), after every sequence of pushes the cache
  keeps its limit and holds at most that many entries, and the invariant holds again.
  A further push evicts what \<open>checkTrim\<close> cuts off the entries present once the pushed
  entry is in place: at most one entry, and its counter is the smallest among the
  entries present, which are the entries the cache held and the pushed one.
\<close>

theorem pushes_keep_capacity_and_evict_oldest:
  assumes inv: "historyInvariant st" and c: "cache st = Some c"
  shows "\<exists>c'. cache (fold push ids st) = Some c' \<and> limit c' = limit c
          \<and> length (items c') \<le> limit c
          \<and> historyInvariant (fold push ids st)
          \<and> (\<forall>cid. evictedByPush cid (fold push ids st)
                     @ items (the (cache (push cid (fold push ids st))))
                   = presentAtPush cid (fold push ids st)
                 \<and> length (evictedByPush cid (fold push ids st)) \<le> 1
                 \<and> (\<forall>e\<in>set (evictedByPush cid (fold push ids st)).
                      \<forall>e'\<in>set (presentAtPush cid (fold push ids st)). snd e \<le> snd e')
                 \<and> (evictedByPush cid (fold push ids st) \<noteq> [] \<longrightarrow>
                      presentAtPush cid (fold push ids st)
                        = items c' @ [(cid, counter (fold push ids st))]))"
proof -
  let ?st = "fold push ids st"
  obtain c' where c': "cache ?st = Some c'" "limit c' = limit c"
    using pushes_limit [OF c] by blast
  have inv': "historyInvariant ?st" by (rule pushes_invariant [OF inv])
  then have len: "length (items c') \<le> limit c"
    using c' by (simp add: historyInvariant_def)
  have ev: "evictedByPush cid ?st @ items (the (cache (push cid ?st))) = presentAtPush cid ?st
      \<and> length (evictedByPush cid ?st) \<le> 1
      \<and> (\<forall>e\<in>set (evictedByPush cid ?st). \<forall>e'\<in>set (presentAtPush cid ?st). snd e \<le> snd e')
      \<and> (evictedByPush cid ?st \<noteq> [] \<longrightarrow>
            presentAtPush cid ?st = items c' @ [(cid, counter ?st)])" for cid
  proof (intro conjI ballI impI)
    assume "evictedByPush cid ?st \<noteq> []"
    then show "presentAtPush cid ?st = items c' @ [(cid, counter ?st)]"
      by (rule evicting_push_keeps_entries_present [OF inv' c'(1)])
  next
    show "evictedByPush cid ?st @ items (the (cache (push cid ?st))) = presentAtPush cid ?st"
      by (rule evicted_append [OF c'(1)])
    have n: "length (touch cid (counter ?st) (items c')) - limit c' \<le> 1"
      using touch_length_le [of cid "counter ?st" "items c'"] len c'(2) by simp
    show "length (evictedByPush cid ?st) \<le> 1"
      using n c'(1) by (simp add: evictedByPush_def trimmed_def)
    fix e e' assume "e \<in> set (evictedByPush cid ?st)" "e' \<in> set (presentAtPush cid ?st)"
    then show "snd e \<le> snd e'" using evicted_least [OF inv'] by blast
  qed
  show ?thesis using c' len inv' ev by blast
qed

theorem pushes_keep_capacity_and_evict_oldest_witness:
  "historyInvariant (historyOf 2 [(''a'', 1), (''b'', 2)] 3)
   \<and> items (the (cache (fold push [''c''] (historyOf 2 [(''a'', 1), (''b'', 2)] 3))))
       = [(''b'', 2), (''c'', 3)]
   \<and> evictedByPush ''d'' (fold push [''c''] (historyOf 2 [(''a'', 1), (''b'', 2)] 3))
       = [(''b'', 2)]
   \<and> length (evictedByPush ''d'' (fold push [''c''] (historyOf 2 [(''a'', 1), (''b'', 2)] 3))) \<le> 1"
proof -
  let ?st = "historyOf 2 [(''a'', 1), (''b'', 2)] 3"
  have inv: "historyInvariant ?st"
    by code_simp
  have c: "cache ?st = Some \<lparr>limit = 2, items = [(''a'', 1), (''b'', 2)]\<rparr>"
    by (simp add: historyOf_def)
  have "length (evictedByPush ''d'' (fold push [''c''] ?st)) \<le> 1"
    using pushes_keep_capacity_and_evict_oldest [OF inv c, of "[''c'']"] by blast
  moreover have "items (the (cache (fold push [''c''] ?st))) = [(''b'', 2), (''c'', 3)]"
    by code_simp
  moreover have "evictedByPush ''d'' (fold push [''c''] ?st) = [(''b'', 2)]"
    by code_simp
  ultimately show ?thesis
    using inv by simp
qed

section \<open>Every profile the program reaches is sound\<close>

text \<open>
  Loading sorts a legacy history by counter. A load from a sound storage yields a sound
  history, and so do a push, a change of the configuration, the clearing of the
  history, a query and a new process: from a fresh profile, and from a legacy profile
  with pairwise distinct positive counters below its stored counter, every sequence of
  operations leads to a state that satisfies the invariant of the history.
\<close>

lemma insertSorted_by_counter:
  "sorted (map snd ys) \<Longrightarrow>
   sorted (map snd (insertSorted (\<lambda>a b. snd a - snd b) (x :: string \<times> int) ys))"
  by (induction ys) (auto simp: insertSorted_set)

lemma fold_insertSorted_by_counter:
  "sorted (map snd acc) \<Longrightarrow>
   sorted (map snd (fold (insertSorted (\<lambda>a b. snd a - snd b)) (xs :: (string \<times> int) list) acc))"
  by (induction xs arbitrary: acc) (simp_all add: insertSorted_by_counter)

lemma sortByCounter_sorted: "sorted (map snd (sortByCounter es))"
  by (simp add: sortByCounter_def arraySort_def fold_insertSorted_by_counter)

lemma sortByCounter_mset: "mset (sortByCounter es) = mset es"
  by (simp add: sortByCounter_def arraySort_mset)

lemma cacheSet_OK:
  assumes "cacheOK n c" "list_all (\<lambda>e. snd e < v) (items c)" "0 < v" "v < n"
  shows "cacheOK n (cacheSet k v c)"
proof -
  let ?t = "touch k v (items c)"
  let ?d = "length ?t - limit c"
  from assms(1) have i: "distinct (map fst (items c))" "sorted_wrt (<) (map snd (items c))"
    "list_all (\<lambda>e. 0 < snd e \<and> snd e < n) (items c)"
    by (simp_all add: cacheOK_def)
  have "distinct (map fst (drop ?d ?t))"
    by (rule drop_distinct_map [OF touch_distinct [OF i(1)]])
  moreover have "sorted_wrt (<) (map snd (drop ?d ?t))"
    by (rule drop_sorted_map [OF touch_sorted [OF i(2) assms(2)]])
  moreover have "list_all (\<lambda>e. 0 < snd e \<and> snd e < n) ?t"
    using i(3) assms(3,4) by (auto simp: touch_def list_all_iff)
  then have "list_all (\<lambda>e. 0 < snd e \<and> snd e < n) (drop ?d ?t)"
    by (rule list_all_drop)
  moreover have "length (items (cacheSet k v c)) \<le> limit (cacheSet k v c)"
    by (simp add: cacheSet_length cacheSet_limit)
  ultimately show ?thesis
    by (simp add: cacheOK_def cacheSet_items cacheSet_limit)
qed

lemma cacheSet_below:
  assumes "list_all (\<lambda>e. snd e < w) (items c)" "v < w"
  shows "list_all (\<lambda>e. snd e < w) (items (cacheSet k v c))"
proof -
  have "list_all (\<lambda>e. snd e < w) (touch k v (items c))"
    using assms by (auto simp: touch_def list_all_iff)
  then show ?thesis
    by (simp add: cacheSet_items list_all_drop)
qed

lemma fold_cacheSet_OK:
  "cacheOK n c \<Longrightarrow> sorted_wrt (<) (map snd es) \<Longrightarrow>
   list_all (\<lambda>e. 0 < snd e \<and> snd e < n) es \<Longrightarrow>
   (\<forall>e\<in>set es. list_all (\<lambda>i. snd i < snd e) (items c)) \<Longrightarrow>
   cacheOK n (fold (\<lambda>e c. cacheSet (fst e) (snd e) c) es c)"
proof (induction es arbitrary: c)
  case Nil
  then show ?case by simp
next
  case (Cons e es)
  have ok: "cacheOK n (cacheSet (fst e) (snd e) c)"
    using Cons.prems by (intro cacheSet_OK) simp_all
  have below: "\<forall>e'\<in>set es. list_all (\<lambda>i. snd i < snd e') (items (cacheSet (fst e) (snd e) c))"
  proof
    fix e' assume e': "e' \<in> set es"
    then have "snd e < snd e'" using Cons.prems(2) by auto
    moreover have "list_all (\<lambda>i. snd i < snd e') (items c)" using Cons.prems(4) e' by simp
    ultimately show "list_all (\<lambda>i. snd i < snd e') (items (cacheSet (fst e) (snd e) c))"
      by (intro cacheSet_below)
  qed
  show ?case
    using Cons.IH [OF ok _ _ below] Cons.prems(2,3) by simp
qed

lemma sortByCounter_strict:
  assumes "distinct (map snd es)"
  shows "sorted_wrt (<) (map snd (sortByCounter es))"
proof -
  have "mset (map snd (sortByCounter es)) = mset (map snd es)"
    by (simp add: sortByCounter_mset)
  then have "distinct (map snd (sortByCounter es))"
    using assms by (metis mset_eq_imp_distinct_iff)
  then show ?thesis
    using sortByCounter_sorted [of es] by (simp add: strict_sorted_iff)
qed

lemma load_invariant:
  assumes s: "storageInvariant st" and c: "0 < counter st"
  shows "historyInvariant (load st) \<and> storageInvariant (load st)"
proof -
  have "storedCounter (load st) = storedCounter st" "storedCache (load st) = storedCache st"
    by (simp_all add: load_def Let_def)
  then have st: "storageInvariant (load st)"
    using s by (simp only: storageInvariant_def)
  let ?c0 = "newLRUCache (configuredCommandsHistoryLength st)"
  show ?thesis
  proof (cases "storedCache st")
    case None
    have "0 < (case storedCounter st of None \<Rightarrow> counter st | Some n \<Rightarrow> n)"
      using s c by (simp add: storageInvariant_def split: option.splits)
    then have "historyInvariant (load st)"
      using None by (simp add: historyInvariant_def load_def Let_def newLRUCache_def)
    with st show ?thesis by simp
  next
    case (Some ser)
    with s obtain n where n: "storedCounter st = Some n" "0 < n"
      "list_all (\<lambda>e. 0 < snd e \<and> snd e < n) (entries ser)"
      "if usesLRU ser then sorted_wrt (<) (map snd (entries ser))
       else distinct (map snd (entries ser))"
      by (auto simp: storageInvariant_def split: option.splits)
    let ?es = "if usesLRU ser then entries ser else sortByCounter (entries ser)"
    have sorted: "sorted_wrt (<) (map snd ?es)"
      using n(4) by (simp add: sortByCounter_strict)
    have "set (sortByCounter (entries ser)) = set (entries ser)"
      using sortByCounter_mset [of "entries ser"] by (rule mset_eq_setD)
    then have bnd: "list_all (\<lambda>e. 0 < snd e \<and> snd e < n) ?es"
      using n(3) by (simp add: list_all_iff)
    have ok0: "cacheOK n ?c0" by (simp add: cacheOK_def newLRUCache_def)
    have "cacheOK n (fold (\<lambda>e c. cacheSet (fst e) (snd e) c) ?es ?c0)"
      by (rule fold_cacheSet_OK [OF ok0 sorted bnd]) (simp add: newLRUCache_def)
    then have "historyInvariant (load st)"
      using Some n(1,2) by (simp add: historyInvariant_def load_def Let_def cacheOK_def)
    with st show ?thesis by simp
  qed
qed

lemma historyInvariant_cong:
  "cache s = cache t \<Longrightarrow> counter s = counter t \<Longrightarrow> historyInvariant s = historyInvariant t"
  by (simp add: historyInvariant_def cong: option.case_cong)

lemma storageInvariant_cong:
  "storedCache s = storedCache t \<Longrightarrow> storedCounter s = storedCounter t \<Longrightarrow>
   storageInvariant s = storageInvariant t"
  by (simp add: storageInvariant_def cong: option.case_cong)

lemma saveState_history: "historyInvariant (saveState st) = historyInvariant st"
  by (cases "cache st") (simp_all add: saveState_def historyInvariant_def)

lemma saveState_storage:
  assumes "historyInvariant st" "cache st = Some c"
  shows "storageInvariant (saveState st)"
  using assms by (simp add: saveState_def historyInvariant_def storageInvariant_def)

lemma push_profile:
  assumes "profileInvariant st"
  shows "profileInvariant (push cid st)"
proof (cases "cache st")
  case None
  with assms show ?thesis by (simp add: push_def)
next
  case (Some c)
  let ?st' = "st\<lparr>cache := Some (cacheSet cid (counter st) c), counter := counter st + 1\<rparr>"
  have p: "push cid st = saveState ?st'" using Some by (simp add: push_def)
  have h: "historyInvariant (push cid st)"
    using assms by (simp add: profileInvariant_def push_invariant)
  then have "historyInvariant ?st'" by (simp add: p saveState_history)
  then have "storageInvariant (saveState ?st')" by (rule saveState_storage) simp
  with h p show ?thesis by (simp add: profileInvariant_def)
qed

lemma clearHistory_profile: "profileInvariant (clearHistory config st)"
proof -
  let ?st' = "st\<lparr>cache := Some (newLRUCache (getConfiguredCommandHistoryLength config)),
                 counter := 1\<rparr>"
  have h: "historyInvariant ?st'" by (simp add: historyInvariant_def newLRUCache_def)
  then have "storageInvariant (saveState ?st')" by (rule saveState_storage) simp
  with h show ?thesis by (simp add: profileInvariant_def clearHistory_def saveState_history)
qed

lemma setLimit_items: "items (setLimit n c) = drop (length (items c) - n) (items c)"
  by (simp add: setLimit_def checkTrim_def)

lemma updateConfiguration_profile:
  assumes "profileInvariant st"
  shows "profileInvariant (updateConfiguration config st)"
proof -
  let ?n = "getConfiguredCommandHistoryLength config"
  let ?st1 = "st\<lparr>configuredCommandsHistoryLength := ?n\<rparr>"
  have i1: "profileInvariant ?st1"
    using assms historyInvariant_cong [of ?st1 st] storageInvariant_cong [of ?st1 st]
    by (simp add: profileInvariant_def)
  show ?thesis
  proof (cases "cache st")
    case None
    with i1 show ?thesis by (simp add: updateConfiguration_def Let_def)
  next
    case (Some c)
    show ?thesis
    proof (cases "limit c = ?n")
      case True
      with Some i1 show ?thesis by (simp add: updateConfiguration_def Let_def)
    next
      case False
      let ?st2 = "?st1\<lparr>cache := Some (setLimit ?n c)\<rparr>"
      from assms Some have inv: "distinct (map fst (items c))"
        "sorted_wrt (<) (map snd (items c))"
        "list_all (\<lambda>e. 0 < snd e \<and> snd e < counter st) (items c)" "0 < counter st"
        by (simp_all add: profileInvariant_def historyInvariant_def)
      have h: "historyInvariant ?st2"
        using inv
        by (simp add: historyInvariant_def setLimit_items drop_distinct_map drop_sorted_map
            list_all_drop) (simp add: setLimit_def checkTrim_def)
      then have "storageInvariant (saveState ?st2)" by (rule saveState_storage) simp
      with h have "profileInvariant (saveState ?st2)"
        by (simp add: profileInvariant_def saveState_history)
      with Some False show ?thesis by (simp add: updateConfiguration_def Let_def)
    qed
  qed
qed

lemma CommandsHistory_profile:
  assumes "profileInvariant st"
  shows "profileInvariant (CommandsHistory config st)"
proof -
  have u: "profileInvariant (updateConfiguration config st)"
    by (rule updateConfiguration_profile [OF assms])
  then have "0 < counter (updateConfiguration config st)"
    by (simp add: profileInvariant_def historyInvariant_def)
  with u show ?thesis
    using load_invariant [of "updateConfiguration config st"]
    by (simp add: profileInvariant_def CommandsHistory_def)
qed

lemma doGetResults_profile:
  assumes "profileInvariant st"
  shows "profileInvariant (fst (doGetResults sv q tok st))"
proof -
  let ?st' = "fst (doGetResults sv q tok st)"
  have "cache ?st' = cache st" "counter ?st' = counter st"
    "storedCache ?st' = storedCache st" "storedCounter ?st' = storedCounter st"
    by (simp_all add: doGetResults_def Let_def)
  then show ?thesis
    using assms historyInvariant_cong [of ?st' st] storageInvariant_cong [of ?st' st]
    by (simp add: profileInvariant_def)
qed

lemma flag_profile:
  "profileInvariant (st\<lparr>waitedForExtensionsRegistered := b\<rparr>) = profileInvariant st"
  using historyInvariant_cong [of "st\<lparr>waitedForExtensionsRegistered := b\<rparr>" st]
    storageInvariant_cong [of "st\<lparr>waitedForExtensionsRegistered := b\<rparr>" st]
  by (simp add: profileInvariant_def)

lemma step_profile:
  assumes "profileInvariant st"
  shows "profileInvariant (step e st)"
proof (cases e)
  case (QueryEntered sv q tok)
  then show ?thesis
    using assms doGetResults_profile [OF assms] by (simp add: getResults_def)
next
  case (QueryResumed sv q tok)
  have "profileInvariant (st\<lparr>waitedForExtensionsRegistered := True\<rparr>)"
    using assms by (simp add: flag_profile)
  from doGetResults_profile [OF this] QueryResumed show ?thesis
    by (simp add: getResultsResumed_def)
next
  case ExtensionsRegistered
  then show ?thesis using assms by (simp add: onInstalledExtensionsRegistered_def flag_profile)
next
  case (CommandRun cid)
  then show ?thesis using push_profile [OF assms] by (simp add: onBeforeRunCommand_def)
qed

lemma newProcess_profile:
  assumes "profileInvariant st"
  shows "profileInvariant (newProcess st)"
proof -
  have "historyInvariant (newProcess st)"
    by (simp add: newProcess_def historyInvariant_def)
  moreover have "storageInvariant (newProcess st) = storageInvariant st"
    by (rule storageInvariant_cong) (simp_all add: newProcess_def)
  ultimately show ?thesis using assms by (simp add: profileInvariant_def)
qed

lemma perform_profile:
  assumes "profileInvariant st"
  shows "profileInvariant (perform op st)"
proof (cases op)
  case (InSession e)
  then show ?thesis using step_profile [OF assms] by simp
next
  case (NewCommandsHistory config)
  then show ?thesis using CommandsHistory_profile [OF assms] by simp
next
  case (ConfigurationChanged config)
  then show ?thesis using updateConfiguration_profile [OF assms] by simp
next
  case (ClearCommandHistory config)
  then show ?thesis using assms clearHistory_profile by (simp add: clearCommandHistory_def)
next
  case NewProcess
  then show ?thesis using newProcess_profile [OF assms] by simp
qed

lemma performs_profile:
  "profileInvariant st \<Longrightarrow> profileInvariant (fold perform ops st)"
  by (induction ops arbitrary: st) (simp_all add: perform_profile)

lemma freshProfile_invariant: "profileInvariant freshProfile"
  by (simp add: profileInvariant_def freshProfile_def historyInvariant_def storageInvariant_def)

lemma legacyProfile_invariant:
  assumes "distinct (map snd es)" "list_all (\<lambda>e. 0 < snd e \<and> snd e < n) es" "0 < n"
  shows "profileInvariant (legacyProfile es n)"
  using assms
  by (simp add: profileInvariant_def legacyProfile_def freshProfile_def historyInvariant_def
      storageInvariant_def)

lemma reachable_history_invariant:
  "historyInvariant (fold perform ops freshProfile)"
  using performs_profile [OF freshProfile_invariant] by (simp add: profileInvariant_def)

lemma reachable_from_legacy_history_invariant:
  assumes "distinct (map snd es)" "list_all (\<lambda>e. 0 < snd e \<and> snd e < n) es" "0 < n"
  shows "historyInvariant (fold perform ops (legacyProfile es n))"
  using performs_profile [OF legacyProfile_invariant [OF assms]]
  by (simp add: profileInvariant_def)

section \<open>The two persisted encodings\<close>

lemma sorted_by_distinct_counter_unique:
  assumes "sorted (map snd xs)" "sorted (map snd ys)" "distinct (map snd ys)"
    and "mset xs = mset (ys :: (string \<times> int) list)"
  shows "xs = ys"
proof -
  have m: "mset (map snd xs) = mset (map snd ys)" using assms(4) by simp
  then have dx: "distinct (map snd xs)" using assms(3) by (metis mset_eq_imp_distinct_iff)
  have "set (map snd xs) = set (map snd ys)" using m by (rule mset_eq_setD)
  then have eq: "map snd xs = map snd ys"
    using assms(1,2,3) dx by (intro sorted_distinct_set_unique)
  have inj: "inj_on snd (set xs \<union> set ys)"
  proof -
    have "set xs = set ys" using assms(4) by (rule mset_eq_setD)
    moreover have "inj_on snd (set ys)" using assms(3) by (simp add: distinct_map)
    ultimately show ?thesis by simp
  qed
  show ?thesis using eq inj by (simp add: inj_on_map_eq_map)
qed

lemma legacy_sorts_to_recency_order:
  assumes "sorted (map snd hist)" "distinct (map snd hist)" "mset legacy = mset hist"
  shows "sortByCounter legacy = hist"
  using sorted_by_distinct_counter_unique [OF sortByCounter_sorted assms(1,2)]
    sortByCounter_mset [of legacy] assms(3) by simp

lemma loads_agree:
  assumes "sorted (map snd hist)" "distinct (map snd hist)" "mset legacy = mset hist"
  shows "cache (loadLegacy st legacy) = cache (loadLRU st hist)
       \<and> counter (loadLegacy st legacy) = counter (loadLRU st hist)"
  using legacy_sorts_to_recency_order [OF assms]
  by (simp add: loadLegacy_def loadLRU_def load_def Let_def split: option.splits)

lemma push_same:
  assumes "cache s = cache t" "counter s = counter t"
  shows "cache (push cid s) = cache (push cid t) \<and> counter (push cid s) = counter (push cid t)"
proof (cases "cache t")
  case None
  then have "cache s = None" using assms(1) by simp
  then have "push cid s = s" by (simp add: push_def)
  moreover have "push cid t = t" using None by (simp add: push_def)
  ultimately show ?thesis using assms by simp
next
  case (Some c)
  then have "cache s = Some c" using assms(1) by simp
  then have "cache (push cid s) = Some (cacheSet cid (counter s) c)"
    "counter (push cid s) = counter s + 1"
    by (simp_all add: push_def saveState_def)
  moreover have "cache (push cid t) = Some (cacheSet cid (counter t) c)"
    "counter (push cid t) = counter t + 1"
    using Some by (simp_all add: push_def saveState_def)
  ultimately show ?thesis using assms(2) by simp
qed

lemma pushes_same:
  "cache s = cache t \<Longrightarrow> counter s = counter t \<Longrightarrow>
   cache (fold push ids s) = cache (fold push ids t)
   \<and> counter (fold push ids s) = counter (fold push ids t)"
proof (induction ids arbitrary: s t)
  case Nil
  then show ?case by simp
next
  case (Cons cid ids)
  have "cache (push cid s) = cache (push cid t)" "counter (push cid s) = counter (push cid t)"
    using push_same [OF Cons.prems, of cid] by simp_all
  from Cons.IH [OF this] show ?case by simp
qed

lemma peek_same:
  assumes "cache s = cache t"
  shows "peek s = peek t"
  using assms by (intro ext) (simp add: peek_def)

lemma compareMRU_same:
  assumes "cache s = cache t"
  shows "compareMRU lc s = compareMRU lc t"
  by (intro ext) (simp add: compareMRU_def peek_same [OF assms])

lemma markOtherCommands_same:
  assumes "cache s = cache t"
  shows "markOtherCommands s es = markOtherCommands t es"
  by (induction es) (simp_all add: peek_same [OF assms])

lemma introduceGroupMarker_same:
  assumes "cache s = cache t"
  shows "introduceGroupMarker s es = introduceGroupMarker t es"
  by (cases es)
    (simp_all add: introduceGroupMarker_def peek_same [OF assms] markOtherCommands_same [OF assms])

lemma doGetResults_same:
  assumes "cache s = cache t"
  shows "snd (doGetResults sv q tok s) = snd (doGetResults sv q tok t)"
proof -
  let ?s2 = "s\<lparr>lastCommandPaletteInput := Some (trim q),
                disposeOnClose := disposeOnClose s @ [menuItemActions (getActions sv)]\<rparr>"
  let ?t2 = "t\<lparr>lastCommandPaletteInput := Some (trim q),
                disposeOnClose := disposeOnClose t @ [menuItemActions (getActions sv)]\<rparr>"
  have c: "cache ?s2 = cache ?t2"
    using assms by simp
  have "compareMRU (localeCompare sv) ?s2 = compareMRU (localeCompare sv) ?t2"
    by (rule compareMRU_same [OF c])
  moreover have "introduceGroupMarker ?s2 es = introduceGroupMarker ?t2 es" for es
    by (rule introduceGroupMarker_same [OF c])
  ultimately show ?thesis
    by (simp add: doGetResults_def Let_def)
qed

text \<open>
  C7. A history whose counters are pairwise distinct, written once in recency order
  (ascending counters) for the new encoding and once in any order for the legacy
  encoding, loads into the same cache and counter. After any pushes every \<open>peek\<close>, every
  comparison and every result list of \<open>doGetResults\<close> is the same for both.
\<close>

theorem legacy_and_lru_encodings_load_alike:
  assumes "sorted (map snd hist)" "distinct (map snd hist)" "mset legacy = mset hist"
  shows "cache (loadLegacy st legacy) = cache (loadLRU st hist)
       \<and> counter (loadLegacy st legacy) = counter (loadLRU st hist)
       \<and> (\<forall>ids cid. peek (fold push ids (loadLegacy st legacy)) cid
                     = peek (fold push ids (loadLRU st hist)) cid)
       \<and> (\<forall>ids lc a b. compareMRU lc (fold push ids (loadLegacy st legacy)) a b
                     = compareMRU lc (fold push ids (loadLRU st hist)) a b)
       \<and> (\<forall>ids sv q tok. snd (doGetResults sv q tok (fold push ids (loadLegacy st legacy)))
                     = snd (doGetResults sv q tok (fold push ids (loadLRU st hist))))"
proof -
  note l = loads_agree [OF assms, of st]
  have p: "cache (fold push ids (loadLegacy st legacy)) = cache (fold push ids (loadLRU st hist))"
    for ids
    using pushes_same [of "loadLegacy st legacy" "loadLRU st hist" ids] l by simp
  show ?thesis
    using l peek_same [OF p] compareMRU_same [OF p] doGetResults_same [OF p]
    by simp
qed

theorem legacy_and_lru_encodings_load_alike_witness:
  "cache (loadLegacy (historyOf 2 [] 1) [(''c'', 3), (''a'', 1), (''b'', 2)])
     = Some \<lparr>limit = 2, items = [(''b'', 2), (''c'', 3)]\<rparr>
   \<and> cache (loadLRU (historyOf 2 [] 1) [(''a'', 1), (''b'', 2), (''c'', 3)])
     = Some \<lparr>limit = 2, items = [(''b'', 2), (''c'', 3)]\<rparr>"
proof -
  let ?hist = "[(''a'', 1), (''b'', 2), (''c'', 3)] :: (string \<times> int) list"
  let ?legacy = "[(''c'', 3), (''a'', 1), (''b'', 2)] :: (string \<times> int) list"
  have h: "sorted (map snd ?hist)" "distinct (map snd ?hist)" "mset ?legacy = mset ?hist"
    by simp_all
  have "cache (loadLegacy (historyOf 2 [] 1) ?legacy) = cache (loadLRU (historyOf 2 [] 1) ?hist)"
    using legacy_and_lru_encodings_load_alike [OF h, of "historyOf 2 [] 1"] by blast
  moreover have "cache (loadLRU (historyOf 2 [] 1) ?hist)
      = Some \<lparr>limit = 2, items = [(''b'', 2), (''c'', 3)]\<rparr>"
    by code_simp
  ultimately show ?thesis by simp
qed

section \<open>The wait for the extensions\<close>

lemma doGetResults_flag:
  "waitedForExtensionsRegistered (fst (doGetResults sv q tok st)) = waitedForExtensionsRegistered st"
  by (simp add: doGetResults_def Let_def)

lemma push_flag:
  "waitedForExtensionsRegistered (push cid st) = waitedForExtensionsRegistered st"
  by (cases "cache st") (simp_all add: push_def saveState_def)

lemma step_flag:
  "waitedForExtensionsRegistered (step e st) = (waitedForExtensionsRegistered st \<or> setsTheFlag e)"
proof (cases e)
  case (QueryEntered sv q tok)
  then show ?thesis by (simp add: getResults_def doGetResults_flag)
next
  case (QueryResumed sv q tok)
  then show ?thesis by (simp add: getResultsResumed_def doGetResults_flag)
next
  case ExtensionsRegistered
  then show ?thesis by (simp add: onInstalledExtensionsRegistered_def)
next
  case (CommandRun cid)
  then show ?thesis by (simp add: onBeforeRunCommand_def push_flag)
qed

lemma steps_flag:
  "waitedForExtensionsRegistered (fold step evs st)
     = (waitedForExtensionsRegistered st \<or> list_ex setsTheFlag evs)"
  by (induction evs arbitrary: st) (auto simp: step_flag)

text \<open>
  C8, as the code has it. A query that enters \<open>getResults\<close> while the flag is unset
  (the first query, and every later query that enters before a suspended query has
  resumed and before the extension service has reported the registration) suspends on
  the race of an 800 unit timeout against the registration, which settles after at most
  800 time units. A query that enters once the flag is set (whatever events came
  in between) gets its results at once, whether or not the registration has
  completed.
\<close>

theorem query_waits_exactly_while_flag_unset:
  "getResults sv q tok (fold step evs st) =
     (if waitedForExtensionsRegistered st \<or> list_ex setsTheFlag evs
      then Returned (doGetResults sv q tok (fold step evs st))
      else AwaitRace [Timeout 800, WhenInstalledExtensionsRegistered])
   \<and> raceSettlesAfter registered [Timeout 800, WhenInstalledExtensionsRegistered]
       = Some (case registered of None \<Rightarrow> 800 | Some d \<Rightarrow> min 800 d)
   \<and> (case registered of None \<Rightarrow> 800 | Some d \<Rightarrow> min 800 d) \<le> (800 :: nat)"
  by (simp add: getResults_def steps_flag split: option.splits)

theorem query_waits_exactly_while_flag_unset_witness:
  "getResults (paletteOf []) ''c'' False
      (fold step [QueryEntered (paletteOf []) ''a'' False, QueryResumed (paletteOf []) ''a'' False,
                  QueryEntered (paletteOf []) ''b'' False] (historyOf 50 [] 1))
   = Returned (doGetResults (paletteOf []) ''c'' False
      (fold step [QueryEntered (paletteOf []) ''a'' False, QueryResumed (paletteOf []) ''a'' False,
                  QueryEntered (paletteOf []) ''b'' False] (historyOf 50 [] 1)))
   \<and> raceSettlesAfter (Some 30) [Timeout 800, WhenInstalledExtensionsRegistered] = Some 30"
  using query_waits_exactly_while_flag_unset [of "paletteOf []" "''c''" False
      "[QueryEntered (paletteOf []) ''a'' False, QueryResumed (paletteOf []) ''a'' False,
        QueryEntered (paletteOf []) ''b'' False]" "historyOf 50 [] 1" "Some 30"]
  by simp

text \<open>
  A second query that enters while the first one is still suspended finds the flag
  unset and waits as well.
\<close>

theorem second_query_waits_while_first_is_suspended:
  "getResults (paletteOf []) ''b'' False
      (step (QueryEntered (paletteOf []) ''a'' False) (historyOf 50 [] 1))
   = AwaitRace [Timeout 800, WhenInstalledExtensionsRegistered]"
  by code_simp

end
